theory Spec2Isabelle
  imports Main "HOL-Library.AList" "HOL-Library.Char_ord" "HOL-Library.List_Lexorder"
    "HOL-Library.Product_Lexorder"
begin

section \<open>Data model of backend/PathFinder/PathShower.py\<close>

text \<open>
  Stations and line names are Python strings; \<open>min\<close> and the tuple comparison of
  \<open>heapq\<close> compare them by code point, which is the lexicographic order on character
  lists of \<^theory_text>\<open>Char_ord\<close> and \<^theory_text>\<open>List_Lexorder\<close>.

  A Python \<open>dict\<close> keeps its keys in insertion order and is iterated in that order, so a
  dict is an association list with distinct keys: a lookup is \<^const>\<open>map_of\<close>, a store to
  a present key replaces the value in place and a store to a new key appends
  (\<^const>\<open>AList.update\<close>). A Python \<open>set\<close> of line names is the list of its elements in
  the order the set is iterated (no duplicates); \<open>in\<close> and \<open>min\<close> read it through
  \<^const>\<open>set\<close>.
\<close>

type_synonym station = string
type_synonym line = string
type_synonym lineset = "line list"
type_synonym adjacency = "(station \<times> lineset) list"
type_synonym graph = "(station \<times> adjacency) list"
type_synonym station_lines = "(station \<times> lineset) list"
type_synonym cost = "nat \<times> nat"
type_synonym visited = "station \<times> line \<rightharpoonup> cost"

text \<open>\<open>s.add(x)\<close> on a set.\<close>

definition set_add :: "'a \<Rightarrow> 'a list \<Rightarrow> 'a list" where
  "set_add x xs = (if x \<in> set xs then xs else xs @ [x])"

text \<open>
  \<open>d[k]\<close> on a \<open>defaultdict\<close>: a missing key is stored with the default value before the
  value is returned. \<open>dd_get\<close> returns the value and the dict after the access.
\<close>

definition dd_get :: "'v \<Rightarrow> ('k \<times> 'v) list \<Rightarrow> 'k \<Rightarrow> 'v \<times> ('k \<times> 'v) list" where
  "dd_get dflt d k = (case map_of d k of Some v \<Rightarrow> (v, d) | None \<Rightarrow> (dflt, d @ [(k, dflt)]))"

section \<open>build_graph_and_station_lines\<close>

text \<open>\<open>station_lines[s].add(line_name)\<close> on \<open>defaultdict(set)\<close>.\<close>

definition add_station_line :: "line \<Rightarrow> station \<Rightarrow> station_lines \<Rightarrow> station_lines" where
  "add_station_line line_name s sl =
     (let (ls, sl') = dd_get [] sl s in AList.update s (set_add line_name ls) sl')"

text \<open>\<open>graph[a][b].add(line_name)\<close> on \<open>defaultdict(lambda: defaultdict(set))\<close>.\<close>

definition add_edge :: "line \<Rightarrow> station \<Rightarrow> station \<Rightarrow> graph \<Rightarrow> graph" where
  "add_edge line_name a b g =
     (let (adj, g') = dd_get [] g a;
          (ls, adj') = dd_get [] adj b
      in AList.update a (AList.update b (set_add line_name ls) adj') g')"

text \<open>
  The loop \<open>for i in range(len(stations) - 1)\<close> over the consecutive pairs
  \<open>stations[i], stations[i + 1]\<close>.
\<close>

fun add_line_edges :: "line \<Rightarrow> station list \<Rightarrow> graph \<Rightarrow> graph" where
  "add_line_edges line_name (a # b # rest) g =
     add_line_edges line_name (b # rest) (add_edge line_name b a (add_edge line_name a b g))"
| "add_line_edges line_name [a] g = g"
| "add_line_edges line_name [] g = g"

text \<open>
  One iteration of the outer loop, for the line \<open>line_name\<close> whose \<open>line_dict.keys()\<close>
  is \<open>stations\<close>.
\<close>

definition add_line :: "line \<times> station list \<Rightarrow> graph \<times> station_lines \<Rightarrow> graph \<times> station_lines" where
  "add_line item acc =
     (case item of (line_name, stations) \<Rightarrow>
      case acc of (g, sl) \<Rightarrow>
        (add_line_edges line_name stations g, fold (add_station_line line_name) stations sl))"

text \<open>
  The builder. A line definition is given by its name and the list of the keys of its
  dict. The two display-name tables the function also returns (\<open>canonical_to_display\<close>,
  \<open>id_to_names\<close>) do not enter the graph or the index and are left out.
\<close>

definition build_graph_and_station_lines ::
  "(line \<times> station list) list \<Rightarrow> graph \<times> station_lines" where
  "build_graph_and_station_lines line_items = fold add_line line_items ([], [])"

section \<open>find_min_switch_path\<close>

text \<open>
  A queue entry is the tuple \<open>(switches, stations_count, curr, curr_line, parent)\<close>, the
  parent being \<open>None\<close> or the entry that was expanded.
\<close>

datatype entry = Entry (e_switches: nat) (e_stations: nat) (e_curr: station) (e_line: line)
  (e_parent: "entry option")

datatype error = ValueError

text \<open>
  \<open>heapq\<close> pops the least tuple. Two entries in the queue of one search never agree on
  the first four components (\<open>queue_ok\<close> below: the seeding establishes it, a pop and
  the pushes of an expansion keep it), so the order of the queue is the order of \<open>prio\<close>
  and the parents are never compared. The queue is kept as the list of its entries
  sorted by \<open>prio\<close>: \<open>heappush\<close> inserts in order, \<open>heappop\<close> takes the head.
\<close>

definition prio :: "entry \<Rightarrow> nat \<times> nat \<times> station \<times> line" where
  "prio e = (e_switches e, e_stations e, e_curr e, e_line e)"

definition heappush :: "entry \<Rightarrow> entry list \<Rightarrow> entry list" where
  "heappush e pq = insort_key prio e pq"

text \<open>\<open>visited.get(key, (inf, inf)) < c\<close> and \<open>c < visited.get(key, (inf, inf))\<close>.\<close>

definition seen_below :: "cost option \<Rightarrow> cost \<Rightarrow> bool" where
  "seen_below best c = (case best of None \<Rightarrow> False | Some b \<Rightarrow> b < c)"

definition improves :: "cost \<Rightarrow> cost option \<Rightarrow> bool" where
  "improves c best = (case best of None \<Rightarrow> True | Some b \<Rightarrow> c < b)"

text \<open>The seeding loop \<open>for line in station_lines[src]\<close>.\<close>

definition seed_line :: "station \<Rightarrow> line \<Rightarrow> entry list \<times> visited \<Rightarrow> entry list \<times> visited" where
  "seed_line src ln acc =
     (case acc of (pq, vis) \<Rightarrow> (heappush (Entry 0 0 src ln None) pq, vis((src, ln) \<mapsto> (0, 1))))"

definition seed :: "station \<Rightarrow> lineset \<Rightarrow> entry list \<times> visited" where
  "seed src ls = fold (seed_line src) ls ([], Map.empty)"

text \<open>
  The line taken over an edge: the current line when the edge carries it, else
  \<open>min(lines_between)\<close>, which raises \<open>ValueError\<close> on the empty set.
\<close>

definition choose_line :: "line \<Rightarrow> lineset \<Rightarrow> error + line" where
  "choose_line curr_line lines_between =
     (if curr_line \<in> set lines_between then Inr curr_line
      else if lines_between = [] then Inl ValueError
      else Inr (Min (set lines_between)))"

text \<open>The loop \<open>for nbr, lines_between in graph[curr].items()\<close> for the popped entry.\<close>

fun relax :: "entry \<Rightarrow> adjacency \<Rightarrow> entry list \<Rightarrow> visited \<Rightarrow> error + entry list \<times> visited" where
  "relax cur [] pq vis = Inr (pq, vis)"
| "relax cur ((nbr, lines_between) # rest) pq vis =
     (case choose_line (e_line cur) lines_between of
        Inl err \<Rightarrow> Inl err
      | Inr edge_line \<Rightarrow>
          (let new_switches = e_switches cur + (if edge_line \<noteq> e_line cur then 1 else 0);
               new_stations = e_stations cur + 1;
               key = (nbr, edge_line)
           in if improves (new_switches, new_stations) (vis key)
              then relax cur rest
                     (heappush (Entry new_switches new_stations nbr edge_line (Some cur)) pq)
                     (vis(key \<mapsto> (new_switches, new_stations)))
              else relax cur rest pq vis))"

text \<open>
  The \<open>while pq\<close> loop ends because every push lowers the recorded cost of one of the
  finitely many (station, line) keys of the graph. \<open>graph_keys\<close> lists these keys and
  \<open>rank\<close> orders the recorded costs, a missing record above all others.
\<close>

definition adj_keys :: "adjacency \<Rightarrow> (station \<times> line) list" where
  "adj_keys adj = concat (map (\<lambda>(nbr, ls). map (Pair nbr) ls) adj)"

definition graph_keys :: "graph \<Rightarrow> (station \<times> line) list" where
  "graph_keys g = concat (map (\<lambda>(u, adj). adj_keys adj) g)"

fun rank :: "cost option \<Rightarrow> nat \<times> nat \<times> nat" where
  "rank None = (1, 0, 0)"
| "rank (Some (a, b)) = (0, a, b)"

lemma improves_rank: "improves c best \<Longrightarrow> rank (Some c) < rank best"
  by (cases best; cases c) (auto simp: improves_def)

lemma choose_line_mem: "choose_line cl lb = Inr l \<Longrightarrow> l \<in> set lb"
  by (auto simp: choose_line_def split: if_splits)

lemma relax_progress:
  "relax cur adj pq vis = Inr (pq', vis') \<Longrightarrow>
     (\<forall>k. rank (vis' k) \<le> rank (vis k)) \<and>
     ((vis' = vis \<and> pq' = pq) \<or> (\<exists>k \<in> set (adj_keys adj). rank (vis' k) < rank (vis k)))"
proof (induction adj arbitrary: pq vis)
  case Nil
  then show ?case by simp
next
  case (Cons a adj)
  obtain nbr lb where a: "a = (nbr, lb)" by (cases a)
  from Cons.prems a obtain el where el: "choose_line (e_line cur) lb = Inr el"
    by (auto split: sum.splits)
  let ?c = "(e_switches cur + (if el \<noteq> e_line cur then 1 else 0), e_stations cur + 1)"
  let ?k = "(nbr, el)"
  have kin: "?k \<in> set (adj_keys (a # adj))"
    using choose_line_mem[OF el] by (auto simp: adj_keys_def a)
  have sub: "set (adj_keys adj) \<subseteq> set (adj_keys (a # adj))"
    by (auto simp: adj_keys_def)
  show ?case
  proof (cases "improves ?c (vis ?k)")
    case True
    let ?vis1 = "vis(?k \<mapsto> ?c)"
    from Cons.prems a el True
    have r: "relax cur adj (heappush (Entry (fst ?c) (snd ?c) nbr el (Some cur)) pq) ?vis1 = Inr (pq', vis')"
      by (simp add: Let_def)
    from Cons.IH[OF r] have le: "\<forall>k. rank (vis' k) \<le> rank (?vis1 k)" by blast
    have lt1: "rank (?vis1 ?k) < rank (vis ?k)"
      using improves_rank[OF True] by simp
    have le1: "rank (?vis1 k) \<le> rank (vis k)" for k
      using lt1 by (cases "k = ?k") (auto simp: less_imp_le)
    have "rank (vis' k) \<le> rank (vis k)" for k
      using le le1[of k] order_trans by blast
    moreover have "rank (vis' ?k) < rank (vis ?k)"
      using le lt1 le_less_trans by blast
    ultimately show ?thesis using kin by blast
  next
    case False
    from Cons.prems a el False have r: "relax cur adj pq vis = Inr (pq', vis')"
      by (simp add: Let_def)
    from Cons.IH[OF r] sub show ?thesis by blast
  qed
qed

lemma pointwise_lex:
  fixes xs ys :: "('a::order) list"
  shows "length xs = length ys \<Longrightarrow> \<forall>i<length xs. xs ! i \<le> ys ! i \<Longrightarrow> xs \<noteq> ys \<Longrightarrow>
    (xs, ys) \<in> lex {(x, y). x < y}"
proof (induction xs ys rule: list_induct2)
  case Nil
  then show ?case by simp
next
  case (Cons x xs y ys)
  from Cons.prems(1) have xy: "x \<le> y" by force
  from Cons.prems(1) have rest: "\<forall>i<length xs. xs ! i \<le> ys ! i" by force
  show ?case
  proof (cases "x = y")
    case True
    with Cons.prems(2) have "xs \<noteq> ys" by simp
    from Cons.IH[OF rest this] True show ?thesis by simp
  next
    case False
    with xy have "x < y" by simp
    with Cons.hyps show ?thesis by simp
  qed
qed

lemma graph_keys_mem: "(u, adj) \<in> set g \<Longrightarrow> set (adj_keys adj) \<subseteq> set (graph_keys g)"
  by (force simp: graph_keys_def)

lemma graph_keys_dd_get: "dd_get [] g u = (adj, g') \<Longrightarrow>
   graph_keys g' = graph_keys g \<and> set (adj_keys adj) \<subseteq> set (graph_keys g)"
proof (cases "map_of g u")
  case None
  assume "dd_get [] g u = (adj, g')"
  with None have "adj = []" "g' = g @ [(u, [])]" by (simp_all add: dd_get_def)
  then show ?thesis by (simp add: graph_keys_def adj_keys_def)
next
  case (Some a)
  assume "dd_get [] g u = (adj, g')"
  with Some have "adj = a" "g' = g" by (simp_all add: dd_get_def)
  with Some graph_keys_mem[of u a g] show ?thesis by (auto dest: map_of_SomeD)
qed

text \<open>
  The loop \<open>while pq\<close>. It returns the entry stored in \<open>best_final\<close> (\<open>None\<close> when
  the queue runs empty) or the exception raised, and the graph, which the access
  \<open>graph[curr]\<close> extends when \<open>curr\<close> is not yet a key.
\<close>

function search :: "station \<Rightarrow> entry list \<Rightarrow> visited \<Rightarrow> graph \<Rightarrow> (error + entry option) \<times> graph" where
  "search dest [] vis g = (Inr None, g)"
| "search dest (e # pq) vis g =
     (if seen_below (vis (e_curr e, e_line e)) (e_switches e, e_stations e)
      then search dest pq vis g
      else if e_curr e = dest then (Inr (Some e), g)
      else (case dd_get [] g (e_curr e) of (adj, g') \<Rightarrow>
              (case relax e adj pq vis of
                 Inl err \<Rightarrow> (Inl err, g')
               | Inr (pq', vis') \<Rightarrow> search dest pq' vis' g')))"
  by pat_completeness auto
termination
proof (relation "inv_image (lex {(x, y). x < y} <*lex*> less_than)
         (\<lambda>(dest, pq, vis, g). (map (\<lambda>k. rank (vis k)) (graph_keys g), length pq))", goal_cases)
  case 1
  show ?case by (intro wf_inv_image wf_lex_prod wf_lex wf wf_less_than)
next
  case (2 dest e pq vis g)
  then show ?case by simp
next
  case (3 dest e pq vis g adj g' r pq' vis')
  then have dd: "dd_get [] g (e_curr e) = (adj, g')" and rl: "relax e adj pq vis = Inr (pq', vis')"
    by simp_all
  from graph_keys_dd_get[OF dd] have gk: "graph_keys g' = graph_keys g"
    and sub: "set (adj_keys adj) \<subseteq> set (graph_keys g)" by simp_all
  from relax_progress[OF rl] have le: "\<forall>k. rank (vis' k) \<le> rank (vis k)"
    and cases: "(vis' = vis \<and> pq' = pq) \<or> (\<exists>k \<in> set (adj_keys adj). rank (vis' k) < rank (vis k))"
    by simp_all
  from cases show ?case
  proof
    assume "vis' = vis \<and> pq' = pq"
    then show ?thesis by (simp add: gk)
  next
    assume "\<exists>k \<in> set (adj_keys adj). rank (vis' k) < rank (vis k)"
    then obtain k where k: "k \<in> set (graph_keys g)" "rank (vis' k) < rank (vis k)"
      using sub by blast
    have ne: "map (\<lambda>k. rank (vis' k)) (graph_keys g) \<noteq> map (\<lambda>k. rank (vis k)) (graph_keys g)"
      using k by (metis (mono_tags, lifting) map_eq_conv less_irrefl)
    have "(map (\<lambda>k. rank (vis' k)) (graph_keys g), map (\<lambda>k. rank (vis k)) (graph_keys g))
         \<in> lex {(x, y). x < y}"
    proof (rule pointwise_lex)
      show "\<forall>i<length (map (\<lambda>k. rank (vis' k)) (graph_keys g)).
              map (\<lambda>k. rank (vis' k)) (graph_keys g) ! i \<le> map (\<lambda>k. rank (vis k)) (graph_keys g) ! i"
      proof (intro allI impI)
        fix i assume "i < length (map (\<lambda>k. rank (vis' k)) (graph_keys g))"
        then have "i < length (graph_keys g)" by simp
        then show "map (\<lambda>k. rank (vis' k)) (graph_keys g) ! i \<le> map (\<lambda>k. rank (vis k)) (graph_keys g) ! i"
          using le[rule_format, of "graph_keys g ! i"] by (simp del: split_paired_All)
      qed
    qed (use ne in simp_all)
    then show ?thesis by (simp add: gk)
  qed
qed


text \<open>The loop \<open>while ptr is not None\<close> that follows the parents.\<close>

fun walk_back :: "entry option \<Rightarrow> station list \<Rightarrow> line list \<Rightarrow> station list \<times> line list" where
  "walk_back None rev_stations rev_lines = (rev_stations, rev_lines)"
| "walk_back (Some (Entry sw sc prev_station prev_line prev_parent)) rev_stations rev_lines =
     walk_back prev_parent (rev_stations @ [prev_station]) (rev_lines @ [prev_line])"

text \<open>The reconstruction of the path and of the line of each edge from \<open>best_final\<close>.\<close>

definition reconstruct :: "entry \<Rightarrow> station list \<times> nat \<times> nat \<times> line list" where
  "reconstruct best_final =
     (case best_final of Entry switches stations_count stn line_used parent \<Rightarrow>
        (case walk_back parent [stn] [line_used] of (rs, rl) \<Rightarrow>
           (let rev_stations = rev rs;
                rev_lines = rev rl;
                lines_for_edges = map (\<lambda>i. rev_lines ! (i + 1)) [0..<length rev_stations - 1]
            in (rev_stations, switches, stations_count, lines_for_edges))))"

text \<open>
  The result of a call: \<open>Inl\<close> an exception, \<open>Inr None\<close> the tuple
  \<open>(None, None, None, None)\<close>, \<open>Inr (Some (path, switches, stations, lines))\<close> a path;
  and the graph after the call.
\<close>

type_synonym result = "(station list \<times> nat \<times> nat \<times> line list) option"

definition find_min_switch_path ::
  "graph \<Rightarrow> station_lines \<Rightarrow> station \<Rightarrow> station \<Rightarrow> (error + result) \<times> graph" where
  "find_min_switch_path graph station_lines src dest =
     (case (map_of station_lines src, map_of station_lines dest) of
        (Some src_lines, Some dest_lines) \<Rightarrow>
          (case seed src src_lines of (pq, vis) \<Rightarrow>
             (case search dest pq vis graph of
                (Inl err, graph') \<Rightarrow> (Inl err, graph')
              | (Inr None, graph') \<Rightarrow> (Inr None, graph')
              | (Inr (Some best_final), graph') \<Rightarrow> (Inr (Some (reconstruct best_final)), graph')))
      | _ \<Rightarrow> (Inr None, graph))"

section \<open>Notions the properties are stated with\<close>

text \<open>
  \<open>edge_lines g a b\<close> is \<open>g[a][b]\<close> when \<open>a\<close> is a key of \<open>g\<close> and \<open>b\<close> a key of
  \<open>g[a]\<close>; \<open>edge_set\<close> and \<open>index_set\<close> read a label set and an index entry as sets,
  the empty set where there is no entry. \<open>consecutive\<close> lists the pairs
  \<open>(stations[i], stations[i + 1])\<close>; \<open>lines_through\<close> and \<open>lines_between\<close> are the
  lines of the input whose sequence holds a station, resp. holds two stations side by
  side.
\<close>

definition edge_lines :: "graph \<Rightarrow> station \<Rightarrow> station \<Rightarrow> lineset option" where
  "edge_lines g a b = (case map_of g a of None \<Rightarrow> None | Some adj \<Rightarrow> map_of adj b)"

definition edge_set :: "graph \<Rightarrow> station \<Rightarrow> station \<Rightarrow> line set" where
  "edge_set g a b = (case edge_lines g a b of None \<Rightarrow> {} | Some ls \<Rightarrow> set ls)"

definition index_set :: "station_lines \<Rightarrow> station \<Rightarrow> line set" where
  "index_set sl s = (case map_of sl s of None \<Rightarrow> {} | Some ls \<Rightarrow> set ls)"

definition consecutive :: "station list \<Rightarrow> (station \<times> station) list" where
  "consecutive stations = zip stations (tl stations)"

definition lines_through :: "(line \<times> station list) list \<Rightarrow> station \<Rightarrow> line set" where
  "lines_through line_items s = {l. \<exists>stations. (l, stations) \<in> set line_items \<and> s \<in> set stations}"

definition lines_between :: "(line \<times> station list) list \<Rightarrow> station \<Rightarrow> station \<Rightarrow> line set" where
  "lines_between line_items a b =
     {l. \<exists>stations. (l, stations) \<in> set line_items \<and>
          ((a, b) \<in> set (consecutive stations) \<or> (b, a) \<in> set (consecutive stations))}"


text \<open>
  A walk in the graph with the line taken over each edge, and the number of changes of
  line along it.
\<close>

fun valid_walk :: "graph \<Rightarrow> station list \<Rightarrow> line list \<Rightarrow> bool" where
  "valid_walk g [a] [] = True"
| "valid_walk g (a # b # path) (l # ls) = (l \<in> edge_set g a b \<and> valid_walk g (b # path) ls)"
| "valid_walk g path ls = False"

fun count_switches :: "line list \<Rightarrow> nat" where
  "count_switches (l # m # ls) = (if l = m then 0 else 1) + count_switches (m # ls)"
| "count_switches ls = 0"

text \<open>Small networks used as concrete inputs.\<close>

definition lines3 :: "(line \<times> station list) list" where
  "lines3 = [(''L1'', [''A'', ''B'']), (''L2'', [''B'', ''C'']), (''L3'', [''B'', ''C'', ''D''])]"

definition lines3_reordered :: "(line \<times> station list) list" where
  "lines3_reordered =
     [(''L1'', [''A'', ''B'']), (''L3'', [''B'', ''C'', ''D'']), (''L2'', [''B'', ''C''])]"

definition islands :: "(line \<times> station list) list" where
  "islands = [(''L1'', [''A'', ''B'']), (''L2'', [''C'', ''D''])]"

definition lonely :: "(line \<times> station list) list" where
  "lonely = [(''L1'', [''A'']), (''L2'', [''B'', ''C''])]"

section \<open>The builder\<close>

lemma set_set_add: "set (set_add x xs) = insert x (set xs)"
  by (auto simp: set_add_def)

lemma set_add_not_Nil: "set_add x xs \<noteq> []"
  by (auto simp: set_add_def)

lemma dd_get_value: "fst (dd_get dflt d k) = (case map_of d k of None \<Rightarrow> dflt | Some v \<Rightarrow> v)"
  by (simp add: dd_get_def split: option.splits)

lemma dd_get_map_of: "map_of (snd (dd_get dflt d k)) = (map_of d)(k \<mapsto> fst (dd_get dflt d k))"
proof (cases "map_of d k")
  case None
  then show ?thesis
    by (auto simp: dd_get_def fun_eq_iff map_add_def split: option.splits)
next
  case (Some v)
  then show ?thesis by (auto simp: dd_get_def fun_eq_iff)
qed

lemma map_of_add_station_line:
  "map_of (add_station_line l s sl) =
     (map_of sl)(s \<mapsto> set_add l (case map_of sl s of None \<Rightarrow> [] | Some ls \<Rightarrow> ls))"
proof -
  obtain ls sl' where d: "dd_get [] sl s = (ls, sl')" by (cases "dd_get [] sl s")
  from d dd_get_value[of "[]" sl s] have ls: "ls = (case map_of sl s of None \<Rightarrow> [] | Some ls \<Rightarrow> ls)"
    by simp
  from d dd_get_map_of[of "[]" sl s] have "map_of sl' = (map_of sl)(s \<mapsto> ls)" by simp
  then show ?thesis
    by (simp add: add_station_line_def d update_conv' ls)
qed

lemma add_edge_unfold:
  "add_edge l a b g =
     AList.update a
       (AList.update b (set_add l (fst (dd_get [] (fst (dd_get [] g a)) b)))
          (snd (dd_get [] (fst (dd_get [] g a)) b)))
       (snd (dd_get [] g a))"
  by (simp add: add_edge_def case_prod_beta)

lemma adj_lookup: "map_of (case map_of g a of None \<Rightarrow> [] | Some adj \<Rightarrow> adj) y = edge_lines g a y"
  by (simp add: edge_lines_def split: option.splits)

lemma edge_lines_add_edge:
  "edge_lines (add_edge l a b g) x y =
     (if x = a \<and> y = b then Some (set_add l (case edge_lines g a b of None \<Rightarrow> [] | Some ls \<Rightarrow> ls))
      else edge_lines g x y)"
proof -
  define adj where "adj = fst (dd_get [] g a)"
  define ls where "ls = fst (dd_get [] adj b)"
  define adj' where "adj' = AList.update b (set_add l ls) (snd (dd_get [] adj b))"
  have adj: "map_of adj y = edge_lines g a y" for y
    unfolding adj_def dd_get_value by (rule adj_lookup)
  have ls: "ls = (case edge_lines g a b of None \<Rightarrow> [] | Some ls \<Rightarrow> ls)"
    unfolding ls_def dd_get_value adj ..
  have adj': "map_of adj' y = (if y = b then Some (set_add l ls) else edge_lines g a y)" for y
    unfolding adj'_def update_conv' dd_get_map_of by (simp add: adj)
  have g: "map_of (add_edge l a b g) = (map_of g)(a \<mapsto> adj')"
    unfolding add_edge_unfold update_conv' dd_get_map_of adj'_def ls_def adj_def by simp
  show ?thesis
  proof (cases "x = a")
    case True
    have "edge_lines (add_edge l a b g) a y = map_of adj' y"
      unfolding edge_lines_def g by simp
    then show ?thesis using True by (simp add: adj' ls)
  next
    case False
    have "edge_lines (add_edge l a b g) x y = edge_lines g x y"
      unfolding edge_lines_def g using False by simp
    then show ?thesis using False by simp
  qed
qed

lemma edge_set_add_edge:
  "edge_set (add_edge l a b g) x y =
     (if x = a \<and> y = b then insert l (edge_set g a b) else edge_set g x y)"
  by (simp add: edge_set_def edge_lines_add_edge set_set_add split: option.splits)

lemma edge_set_add_both:
  "edge_set (add_edge l b a (add_edge l a b g)) x y =
     edge_set g x y \<union> (if (x, y) = (a, b) \<or> (y, x) = (a, b) then {l} else {})"
  apply (simp only: edge_set_add_edge)
  apply (cases "x = a"; cases "y = b"; cases "x = b"; cases "y = a")
                 apply simp_all
  done

lemma edge_set_add_line_edges:
  "edge_set (add_line_edges l stations g) x y =
     edge_set g x y \<union>
     (if (x, y) \<in> set (consecutive stations) \<or> (y, x) \<in> set (consecutive stations) then {l} else {})"
proof (induction l stations g rule: add_line_edges.induct)
  case (1 l a b rest g)
  have c: "consecutive (a # b # rest) = (a, b) # consecutive (b # rest)"
    by (simp add: consecutive_def)
  let ?g1 = "add_edge l a b g"
  let ?g2 = "add_edge l b a ?g1"
  have g2: "edge_set ?g2 x y =
      edge_set g x y \<union> (if (x, y) = (a, b) \<or> (y, x) = (a, b) then {l} else {})"
    by (rule edge_set_add_both)
  have "edge_set (add_line_edges l (a # b # rest) g) x y =
      edge_set ?g2 x y \<union>
      (if (x, y) \<in> set (consecutive (b # rest)) \<or> (y, x) \<in> set (consecutive (b # rest))
       then {l} else {})"
    using "1.IH" by simp
  also have "\<dots> = edge_set g x y \<union>
      (if (x, y) \<in> set (consecutive (a # b # rest)) \<or> (y, x) \<in> set (consecutive (a # b # rest))
       then {l} else {})"
    unfolding g2 c by (simp split: if_splits)
  finally show ?case .
next
  case (2 l a g)
  then show ?case by (simp add: consecutive_def)
next
  case (3 l g)
  then show ?case by (simp add: consecutive_def)
qed


lemma index_set_add_station_line:
  "index_set (add_station_line l s sl) x =
     (if x = s then insert l (index_set sl s) else index_set sl x)"
  by (simp add: index_set_def map_of_add_station_line set_set_add split: option.splits)

lemma dom_add_station_line:
  "dom (map_of (add_station_line l s sl)) = insert s (dom (map_of sl))"
  by (simp add: map_of_add_station_line)

lemma index_set_fold_stations:
  "index_set (fold (add_station_line l) stations sl) x =
     index_set sl x \<union> (if x \<in> set stations then {l} else {})"
proof (induction stations arbitrary: sl)
  case Nil
  then show ?case by simp
next
  case (Cons s stations)
  have "index_set (fold (add_station_line l) (s # stations) sl) x =
      index_set (add_station_line l s sl) x \<union> (if x \<in> set stations then {l} else {})"
    using Cons.IH[of "add_station_line l s sl"] by simp
  also have "\<dots> = index_set sl x \<union> (if x \<in> set (s # stations) then {l} else {})"
    unfolding index_set_add_station_line by auto
  finally show ?case .
qed

lemma dom_fold_stations:
  "dom (map_of (fold (add_station_line l) stations sl)) = dom (map_of sl) \<union> set stations"
proof (induction stations arbitrary: sl)
  case Nil
  then show ?case by simp
next
  case (Cons s stations)
  show ?case by (simp add: Cons.IH dom_add_station_line)
qed

lemma fst_add_line: "fst (add_line (l, stations) acc) = add_line_edges l stations (fst acc)"
  by (simp add: add_line_def split: prod.splits)

lemma snd_add_line: "snd (add_line (l, stations) acc) = fold (add_station_line l) stations (snd acc)"
  by (simp add: add_line_def split: prod.splits)

lemma lines_through_Nil: "lines_through [] s = {}"
  by (simp add: lines_through_def)

lemma lines_through_Cons:
  "lines_through ((l, stations) # items) s =
     (if s \<in> set stations then {l} else {}) \<union> lines_through items s"
  unfolding lines_through_def by (cases "s \<in> set stations") auto

lemma lines_between_Nil: "lines_between [] a b = {}"
  by (simp add: lines_between_def)

lemma lines_between_Cons:
  "lines_between ((l, stations) # items) a b =
     (if (a, b) \<in> set (consecutive stations) \<or> (b, a) \<in> set (consecutive stations) then {l} else {})
     \<union> lines_between items a b"
  unfolding lines_between_def
  by (cases "(a, b) \<in> set (consecutive stations) \<or> (b, a) \<in> set (consecutive stations)") auto

lemma index_set_fold_lines:
  "index_set (snd (fold add_line items acc)) s = index_set (snd acc) s \<union> lines_through items s"
proof (induction items arbitrary: acc)
  case Nil
  then show ?case by (simp add: lines_through_Nil)
next
  case (Cons item items)
  obtain l stations where item: "item = (l, stations)" by (cases item)
  show ?case
    unfolding item fold_simps Cons.IH snd_add_line index_set_fold_stations lines_through_Cons
    by (simp add: Un_assoc)
qed

lemma dom_fold_lines:
  "dom (map_of (snd (fold add_line items acc))) =
     dom (map_of (snd acc)) \<union> (\<Union>item \<in> set items. set (snd item))"
proof (induction items arbitrary: acc)
  case Nil
  then show ?case by simp
next
  case (Cons item items)
  obtain l stations where item: "item = (l, stations)" by (cases item)
  show ?case
    unfolding item fold_simps Cons.IH snd_add_line dom_fold_stations
    by (simp add: Un_assoc)
qed

lemma edge_set_fold_lines:
  "edge_set (fst (fold add_line items acc)) a b =
     edge_set (fst acc) a b \<union> lines_between items a b"
proof (induction items arbitrary: acc)
  case Nil
  then show ?case by (simp add: lines_between_Nil)
next
  case (Cons item items)
  obtain l stations where item: "item = (l, stations)" by (cases item)
  show ?case
    unfolding item fold_simps Cons.IH fst_add_line edge_set_add_line_edges lines_between_Cons
    by (simp add: Un_assoc)
qed

lemma edge_lines_Nil: "edge_lines [] a b = None"
  by (simp add: edge_lines_def)

lemma edge_set_Nil: "edge_set [] a b = {}"
  by (simp add: edge_set_def edge_lines_Nil)

lemma index_set_Nil: "index_set [] s = {}"
  by (simp add: index_set_def)

lemma edge_set_built:
  "edge_set (fst (build_graph_and_station_lines line_items)) a b = lines_between line_items a b"
  unfolding build_graph_and_station_lines_def edge_set_fold_lines by (simp add: edge_set_Nil)

lemma index_set_built:
  "index_set (snd (build_graph_and_station_lines line_items)) s = lines_through line_items s"
  unfolding build_graph_and_station_lines_def index_set_fold_lines by (simp add: index_set_Nil)

lemma dom_built:
  "dom (map_of (snd (build_graph_and_station_lines line_items))) =
     (\<Union>item \<in> set line_items. set (snd item))"
  unfolding build_graph_and_station_lines_def dom_fold_lines by simp

lemma consecutive_left: "(a, b) \<in> set (consecutive stations) \<Longrightarrow> a \<in> set stations"
  unfolding consecutive_def by (rule set_zip_leftD)

lemma consecutive_right: "(a, b) \<in> set (consecutive stations) \<Longrightarrow> b \<in> set stations"
  unfolding consecutive_def by (drule set_zip_rightD) (rule list.set_sel(2)[rotated], auto)

lemma lines_between_through: "lines_between line_items a b \<subseteq> lines_through line_items a"
  unfolding lines_between_def lines_through_def
  using consecutive_left consecutive_right by blast

text \<open>Symmetry of the label lists.\<close>

lemma edge_lines_add_both_sym:
  assumes "\<And>x y. edge_lines g x y = edge_lines g y x"
  shows "edge_lines (add_edge l b a (add_edge l a b g)) x y =
         edge_lines (add_edge l b a (add_edge l a b g)) y x"
  apply (simp only: edge_lines_add_edge)
  apply (cases "x = a"; cases "y = b"; cases "x = b"; cases "y = a")
                 apply (simp_all add: assms[of a b] assms[of x y])
       apply (rule assms)+
  done

lemma edge_lines_add_line_edges_sym:
  "(\<And>x y. edge_lines g x y = edge_lines g y x) \<Longrightarrow>
     edge_lines (add_line_edges l stations g) x y = edge_lines (add_line_edges l stations g) y x"
proof (induction l stations g arbitrary: x y rule: add_line_edges.induct)
  case (1 l a b rest g)
  have "\<And>x y. edge_lines (add_edge l b a (add_edge l a b g)) x y =
         edge_lines (add_edge l b a (add_edge l a b g)) y x"
    by (rule edge_lines_add_both_sym) (rule "1.prems")
  from "1.IH"[OF this] show ?case by simp
next
  case (2 l a g)
  then show ?case by simp
next
  case (3 l g)
  then show ?case by simp
qed

lemma edge_lines_fold_lines_sym:
  "(\<And>x y. edge_lines (fst acc) x y = edge_lines (fst acc) y x) \<Longrightarrow>
     edge_lines (fst (fold add_line items acc)) x y = edge_lines (fst (fold add_line items acc)) y x"
proof (induction items arbitrary: acc x y)
  case Nil
  then show ?case by simp
next
  case (Cons item items)
  obtain l stations where item: "item = (l, stations)" by (cases item)
  have "\<And>x y. edge_lines (fst (add_line item acc)) x y = edge_lines (fst (add_line item acc)) y x"
    unfolding item fst_add_line by (rule edge_lines_add_line_edges_sym) (rule Cons.prems)
  from Cons.IH[OF this] show ?case by simp
qed

lemma edge_lines_built_sym:
  "edge_lines (fst (build_graph_and_station_lines line_items)) a b =
   edge_lines (fst (build_graph_and_station_lines line_items)) b a"
  unfolding build_graph_and_station_lines_def
  by (rule edge_lines_fold_lines_sym) (simp add: edge_lines_Nil)


section \<open>The seeding loop and the first pop\<close>

lemma seed_line_pair:
  "seed_line src l (pq, vis) = (heappush (Entry 0 0 src l None) pq, vis((src, l) \<mapsto> (0, 1)))"
  by (simp add: seed_line_def)

lemma set_heappush: "set (heappush e pq) = insert e (set pq)"
  by (simp add: heappush_def set_insort_key)

lemma seed_fold:
  "fold (seed_line src) ls (pq, vis) = (pq', vis') \<Longrightarrow>
     set pq' = set pq \<union> (\<lambda>l. Entry 0 0 src l None) ` set ls \<and>
     vis' = (\<lambda>k. if k \<in> Pair src ` set ls then Some (0, 1) else vis k)"
proof (induction ls arbitrary: pq vis)
  case Nil
  then show ?case by simp
next
  case (Cons l ls)
  from Cons.prems
  have "fold (seed_line src) ls (heappush (Entry 0 0 src l None) pq, vis((src, l) \<mapsto> (0, 1))) = (pq', vis')"
    by (simp add: seed_line_pair)
  from Cons.IH[OF this] have a: "set pq' = set (heappush (Entry 0 0 src l None) pq) \<union> (\<lambda>l. Entry 0 0 src l None) ` set ls"
    and b: "vis' = (\<lambda>k. if k \<in> Pair src ` set ls then Some (0, 1) else (vis((src, l) \<mapsto> (0, 1))) k)"
    by blast+
  from a have "set pq' = set pq \<union> (\<lambda>l. Entry 0 0 src l None) ` set (l # ls)"
    by (simp add: set_heappush)
  moreover from b have "vis' = (\<lambda>k. if k \<in> Pair src ` set (l # ls) then Some (0, 1) else vis k)"
    by (auto simp: fun_eq_iff)
  ultimately show ?case by blast
qed

lemma seed_props:
  assumes "seed src ls = (pq, vis)"
  shows "set pq = (\<lambda>l. Entry 0 0 src l None) ` set ls"
    and "vis = (\<lambda>k. if k \<in> Pair src ` set ls then Some (0, 1) else None)"
  using seed_fold[OF assms[unfolded seed_def]] by simp_all

lemma reconstruct_root: "reconstruct (Entry sw sc s l None) = ([s], sw, sc, [])"
  by (simp add: reconstruct_def)

lemma search_hit:
  "\<not> seen_below (vis (e_curr e, e_line e)) (e_switches e, e_stations e) \<Longrightarrow> e_curr e = dest \<Longrightarrow>
   search dest (e # pq) vis g = (Inr (Some e), g)"
  by (subst search.simps) simp

section \<open>The search loop\<close>

text \<open>
  \<open>nbrs g u\<close> is the neighbour dict read by \<open>graph[u]\<close>, empty when \<open>u\<close> is not a key.
  \<open>graph_ok\<close> says that the neighbour dicts of a graph have no key twice, as every
  Python dict. \<open>stations_of\<close> and \<open>lines_of\<close> list the stations and lines along the
  parents of an entry, the source first; \<open>entry_ok\<close> says that this chain starts at the
  source and that every hop runs over an edge carrying the line of the entry reached.
\<close>

definition nbrs :: "graph \<Rightarrow> station \<Rightarrow> adjacency" where
  "nbrs g u = (case map_of g u of None \<Rightarrow> [] | Some adj \<Rightarrow> adj)"

definition graph_ok :: "graph \<Rightarrow> bool" where
  "graph_ok g = list_all (\<lambda>entry. distinct (map fst (snd entry))) g"

fun stations_of :: "entry \<Rightarrow> station list" where
  "stations_of (Entry sw sc c l None) = [c]"
| "stations_of (Entry sw sc c l (Some p)) = stations_of p @ [c]"

fun lines_of :: "entry \<Rightarrow> line list" where
  "lines_of (Entry sw sc c l None) = [l]"
| "lines_of (Entry sw sc c l (Some p)) = lines_of p @ [l]"

fun entry_ok :: "graph \<Rightarrow> station \<Rightarrow> entry \<Rightarrow> bool" where
  "entry_ok g src (Entry sw sc c l None) = (c = src)"
| "entry_ok g src (Entry sw sc c l (Some p)) = (l \<in> edge_set g (e_curr p) c \<and> entry_ok g src p)"

lemma fst_dd_get_nbrs: "fst (dd_get [] g u) = nbrs g u"
  by (simp add: dd_get_value nbrs_def)

lemma nbrs_dd_get: "nbrs (snd (dd_get [] g u)) v = nbrs g v"
  unfolding nbrs_def dd_get_map_of fst_dd_get_nbrs
  by (simp add: nbrs_def split: option.splits)

lemma edge_lines_nbrs: "edge_lines g a b = map_of (nbrs g a) b"
  by (simp add: edge_lines_def nbrs_def split: option.splits)

lemma edge_set_dd_get: "edge_set (snd (dd_get [] g u)) a b = edge_set g a b"
  by (simp add: edge_set_def edge_lines_nbrs nbrs_dd_get)

lemma entry_ok_cong:
  "(\<And>a b. edge_set g' a b = edge_set g a b) \<Longrightarrow> entry_ok g' src e = entry_ok g src e"
  by (induction g src e rule: entry_ok.induct) simp_all

lemma graph_ok_nbrs: "graph_ok g \<Longrightarrow> distinct (map fst (nbrs g u))"
proof (cases "map_of g u")
  case None
  then show ?thesis by (simp add: nbrs_def)
next
  case (Some adj)
  assume "graph_ok g"
  moreover from Some have "(u, adj) \<in> set g" by (rule map_of_SomeD)
  ultimately have "distinct (map fst adj)"
    unfolding graph_ok_def list_all_iff by force
  with Some show ?thesis by (simp add: nbrs_def)
qed

lemma edge_set_member:
  assumes "graph_ok g" and "(b, lb) \<in> set (nbrs g a)" and "l \<in> set lb"
  shows "l \<in> edge_set g a b"
proof -
  have "map_of (nbrs g a) b = Some lb"
    using graph_ok_nbrs[OF assms(1)] assms(2) by simp
  then show ?thesis using assms(3) by (simp add: edge_set_def edge_lines_nbrs)
qed

text \<open>What \<open>relax\<close> adds to the queue.\<close>

lemma relax_new_entries:
  "relax cur adj pq vis = Inr (pq', vis') \<Longrightarrow> e \<in> set pq' \<Longrightarrow>
     e \<in> set pq \<or>
     (\<exists>nbr lb. (nbr, lb) \<in> set adj \<and> e_curr e = nbr \<and> e_line e \<in> set lb \<and> e_parent e = Some cur)"
proof (induction adj arbitrary: pq vis)
  case Nil
  then show ?case by simp
next
  case (Cons a adj)
  obtain nbr lb where a: "a = (nbr, lb)" by (cases a)
  from Cons.prems(1) a obtain el where el: "choose_line (e_line cur) lb = Inr el"
    by (auto split: sum.splits)
  let ?c = "(e_switches cur + (if el \<noteq> e_line cur then 1 else 0), e_stations cur + 1)"
  let ?new = "Entry (fst ?c) (snd ?c) nbr el (Some cur)"
  show ?case
  proof (cases "improves ?c (vis (nbr, el))")
    case True
    from Cons.prems(1) a el True
    have r: "relax cur adj (heappush ?new pq) (vis((nbr, el) \<mapsto> ?c)) = Inr (pq', vis')"
      by (simp add: Let_def)
    from Cons.IH[OF r Cons.prems(2)]
    consider "e \<in> set (heappush ?new pq)"
      | "\<exists>nbr lb. (nbr, lb) \<in> set adj \<and> e_curr e = nbr \<and> e_line e \<in> set lb \<and> e_parent e = Some cur"
      by blast
    then show ?thesis
    proof cases
      case 1
      then have "e = ?new \<or> e \<in> set pq" by (simp add: set_heappush)
      then show ?thesis
      proof
        assume "e = ?new"
        then have "(nbr, lb) \<in> set (a # adj) \<and> e_curr e = nbr \<and> e_line e \<in> set lb \<and> e_parent e = Some cur"
          using choose_line_mem[OF el] a by simp
        then show ?thesis by blast
      qed simp
    next
      case 2
      then show ?thesis by auto
    qed
  next
    case False
    from Cons.prems(1) a el False have r: "relax cur adj pq vis = Inr (pq', vis')"
      by (simp add: Let_def)
    from Cons.IH[OF r Cons.prems(2)] show ?thesis by auto
  qed
qed

lemma entry_ok_child:
  assumes "entry_ok g src cur" and "e_parent e = Some cur" and "e_line e \<in> edge_set g (e_curr cur) (e_curr e)"
  shows "entry_ok g src e"
  using assms by (cases e) simp

text \<open>The cases of one turn of the loop, and induction over its turns.\<close>

definition stale :: "visited \<Rightarrow> entry \<Rightarrow> bool" where
  "stale vis e = seen_below (vis (e_curr e, e_line e)) (e_switches e, e_stations e)"

definition graph_after :: "graph \<Rightarrow> station \<Rightarrow> graph" where
  "graph_after g u = snd (dd_get [] g u)"

lemma dd_get_split: "dd_get [] g u = (nbrs g u, graph_after g u)"
  by (simp add: graph_after_def fst_dd_get_nbrs[symmetric])

declare search.simps [simp del]

lemma search_empty: "search dest [] vis g = (Inr None, g)"
  by (simp add: search.simps)

lemma search_stale: "stale vis e \<Longrightarrow> search dest (e # pq) vis g = search dest pq vis g"
  by (simp add: stale_def search.simps)

lemma search_found: "\<not> stale vis e \<Longrightarrow> e_curr e = dest \<Longrightarrow>
    search dest (e # pq) vis g = (Inr (Some e), g)"
  by (simp add: stale_def search.simps)

lemma search_error: "\<not> stale vis e \<Longrightarrow> e_curr e \<noteq> dest \<Longrightarrow>
    relax e (nbrs g (e_curr e)) pq vis = Inl err \<Longrightarrow>
    search dest (e # pq) vis g = (Inl err, graph_after g (e_curr e))"
  by (simp add: stale_def dd_get_split search.simps)

lemma search_expand: "\<not> stale vis e \<Longrightarrow> e_curr e \<noteq> dest \<Longrightarrow>
    relax e (nbrs g (e_curr e)) pq vis = Inr (pq', vis') \<Longrightarrow>
    search dest (e # pq) vis g = search dest pq' vis' (graph_after g (e_curr e))"
  by (simp add: stale_def dd_get_split search.simps)

lemma search_cases_induct [case_names empty stale found error expand]:
  assumes empty: "\<And>dest vis g. P dest [] vis g"
    and stale: "\<And>dest e pq vis g. stale vis e \<Longrightarrow> P dest pq vis g \<Longrightarrow> P dest (e # pq) vis g"
    and found: "\<And>dest e pq vis g. \<not> stale vis e \<Longrightarrow> e_curr e = dest \<Longrightarrow> P dest (e # pq) vis g"
    and error: "\<And>dest e pq vis g err. \<not> stale vis e \<Longrightarrow> e_curr e \<noteq> dest \<Longrightarrow>
        relax e (nbrs g (e_curr e)) pq vis = Inl err \<Longrightarrow> P dest (e # pq) vis g"
    and expand: "\<And>dest e pq vis g pq' vis'. \<not> stale vis e \<Longrightarrow> e_curr e \<noteq> dest \<Longrightarrow>
        relax e (nbrs g (e_curr e)) pq vis = Inr (pq', vis') \<Longrightarrow>
        P dest pq' vis' (graph_after g (e_curr e)) \<Longrightarrow> P dest (e # pq) vis g"
  shows "P dest pq vis g"
proof (induction dest pq vis g rule: search.induct)
  case (1 dest vis g)
  show ?case by (rule empty)
next
  case (2 dest e pq vis g)
  show ?case
  proof (cases "stale vis e")
    case True
    then have "P dest pq vis g" by (intro "2.IH"(1)) (simp add: stale_def)
    with True show ?thesis by (rule stale)
  next
    case ns: False
    show ?thesis
    proof (cases "e_curr e = dest")
      case True
      with ns show ?thesis by (rule found)
    next
      case nd: False
      show ?thesis
      proof (cases "relax e (nbrs g (e_curr e)) pq vis")
        case (Inl err)
        with ns nd show ?thesis by (rule error)
      next
        case (Inr r)
        obtain pq' vis' where r: "r = (pq', vis')" by (cases r)
        have "P dest pq' vis' (graph_after g (e_curr e))"
        proof (rule "2.IH"(2))
          show "\<not> seen_below (vis (e_curr e, e_line e)) (e_switches e, e_stations e)"
            using ns by (simp add: stale_def)
          show "e_curr e \<noteq> dest" by (rule nd)
          show "(nbrs g (e_curr e), graph_after g (e_curr e)) = dd_get [] g (e_curr e)"
            by (simp add: dd_get_split)
          show "relax e (nbrs g (e_curr e)) pq vis = Inr r" by (rule Inr)
          show "(pq', vis') = r" by (simp add: r)
        qed
        with ns nd Inr[unfolded r] show ?thesis by (rule expand)
      qed
    qed
  qed
qed

lemma nbrs_graph_after: "nbrs (graph_after g u) v = nbrs g v"
  unfolding graph_after_def by (rule nbrs_dd_get)

lemma edge_set_graph_after: "edge_set (graph_after g u) a b = edge_set g a b"
  unfolding graph_after_def by (rule edge_set_dd_get)

lemma graph_ok_graph_after: "graph_ok g \<Longrightarrow> graph_ok (graph_after g u)"
  by (auto simp: graph_ok_def graph_after_def dd_get_def split: option.splits)

lemma search_sound:
  "search dest pq vis g = (Inr (Some e), g') \<Longrightarrow> graph_ok g \<Longrightarrow>
     (\<And>x. x \<in> set pq \<Longrightarrow> entry_ok g src x) \<Longrightarrow> e_curr e = dest \<and> entry_ok g src e"
proof (induction dest pq vis g rule: search_cases_induct)
  case (empty dest vis g)
  then show ?case by (simp add: search_empty)
next
  case (stale dest x pq vis g)
  from stale.prems(1) have s: "search dest pq vis g = (Inr (Some e), g')"
    by (simp add: search_stale[OF stale.hyps])
  show ?case by (rule stale.IH[OF s stale.prems(2)]) (simp add: stale.prems(3))
next
  case (found dest x pq vis g)
  from found.prems(1) have "e = x" by (simp add: search_found[OF found.hyps])
  with found.hyps(2) found.prems(3)[of x] show ?case by simp
next
  case (error dest x pq vis g err)
  from error.prems(1) show ?case by (simp add: search_error[OF error.hyps])
next
  case (expand dest x pq vis g pq1 vis1)
  let ?g1 = "graph_after g (e_curr x)"
  from expand.prems(1) have s: "search dest pq1 vis1 ?g1 = (Inr (Some e), g')"
    by (simp add: search_expand[OF expand.hyps])
  have es: "\<And>a b. edge_set ?g1 a b = edge_set g a b" by (rule edge_set_graph_after)
  have inv: "entry_ok ?g1 src y" if y: "y \<in> set pq1" for y
  proof -
    from relax_new_entries[OF expand.hyps(3) y]
    consider "y \<in> set pq"
      | nbr lb where "(nbr, lb) \<in> set (nbrs g (e_curr x))" "e_curr y = nbr" "e_line y \<in> set lb"
          "e_parent y = Some x"
      by blast
    then have "entry_ok g src y"
    proof cases
      case 1
      then show ?thesis by (simp add: expand.prems(3))
    next
      case 2
      have "e_line y \<in> edge_set g (e_curr x) (e_curr y)"
        using edge_set_member[OF expand.prems(2), of "e_curr y" lb "e_curr x" "e_line y"] 2 by simp
      with expand.prems(3)[of x] 2(4) show ?thesis by (intro entry_ok_child[of g src x y]) simp_all
    qed
    then show ?thesis by (simp add: entry_ok_cong[OF es])
  qed
  have "e_curr e = dest \<and> entry_ok ?g1 src e"
    by (rule expand.IH[OF s graph_ok_graph_after[OF expand.prems(2)] inv])
  then show ?case by (simp add: entry_ok_cong[OF es])
qed

section \<open>Reconstruction of the path\<close>

fun stations_opt :: "entry option \<Rightarrow> station list" where
  "stations_opt None = []"
| "stations_opt (Some p) = stations_of p"

fun lines_opt :: "entry option \<Rightarrow> line list" where
  "lines_opt None = []"
| "lines_opt (Some p) = lines_of p"

lemma stations_of_unfold: "stations_of e = stations_opt (e_parent e) @ [e_curr e]"
  by (cases e; cases "e_parent e") simp_all

lemma lines_of_unfold: "lines_of e = lines_opt (e_parent e) @ [e_line e]"
  by (cases e; cases "e_parent e") simp_all

lemma walk_back_chain:
  "walk_back po rs rl = (rs @ rev (stations_opt po), rl @ rev (lines_opt po))"
proof (induction po rs rl rule: walk_back.induct)
  case (1 rs rl)
  then show ?case by simp
next
  case (2 sw sc ps pl pp rs rl)
  have "stations_opt (Some (Entry sw sc ps pl pp)) = stations_opt pp @ [ps]"
    using stations_of_unfold[of "Entry sw sc ps pl pp"] by simp
  moreover have "lines_opt (Some (Entry sw sc ps pl pp)) = lines_opt pp @ [pl]"
    using lines_of_unfold[of "Entry sw sc ps pl pp"] by simp
  ultimately show ?case using "2.IH" by simp
qed

lemma length_lines_of: "length (lines_of e) = length (stations_of e)"
  by (induction e rule: stations_of.induct) simp_all

lemma stations_of_not_Nil: "stations_of e \<noteq> []"
  by (simp add: stations_of_unfold)

lemma lines_of_not_Nil: "lines_of e \<noteq> []"
  by (simp add: lines_of_unfold)

lemma shifted_index_tl: "map (\<lambda>i. xs ! (i + 1)) [0..<length xs - 1] = tl xs"
  by (rule nth_equalityI) (simp_all add: nth_tl)

lemma reconstruct_chain:
  "reconstruct e = (stations_of e, e_switches e, e_stations e, tl (lines_of e))"
proof (cases e)
  case (Entry sw sc c l po)
  have s: "rev ([c] @ rev (stations_opt po)) = stations_of e"
    using stations_of_unfold[of e] Entry by simp
  have l: "rev ([l] @ rev (lines_opt po)) = lines_of e"
    using lines_of_unfold[of e] Entry by simp
  have "reconstruct e = (stations_of e, sw, sc,
      map (\<lambda>i. lines_of e ! (i + 1)) [0..<length (stations_of e) - 1])"
    unfolding reconstruct_def Entry entry.case walk_back_chain prod.case Let_def s[unfolded Entry] l[unfolded Entry]
    ..
  then show ?thesis
    using shifted_index_tl[of "lines_of e"] by (simp add: length_lines_of Entry)
qed

lemma hd_stations_of: "entry_ok g src e \<Longrightarrow> hd (stations_of e) = src"
  by (induction g src e rule: entry_ok.induct) (simp_all add: stations_of_not_Nil)

lemma last_stations_of: "last (stations_of e) = e_curr e"
  by (simp add: stations_of_unfold)

lemma valid_walk_snoc:
  "valid_walk g path ls \<Longrightarrow> l \<in> edge_set g (last path) c \<Longrightarrow> valid_walk g (path @ [c]) (ls @ [l])"
  by (induction g path ls rule: valid_walk.induct) simp_all

lemma valid_walk_entry: "entry_ok g src e \<Longrightarrow> valid_walk g (stations_of e) (tl (lines_of e))"
proof (induction g src e rule: entry_ok.induct)
  case (1 g src sw sc c l)
  then show ?case by simp
next
  case (2 g src sw sc c l p)
  then have w: "valid_walk g (stations_of p) (tl (lines_of p))" and m: "l \<in> edge_set g (e_curr p) c"
    by simp_all
  have "valid_walk g (stations_of p @ [c]) (tl (lines_of p) @ [l])"
    by (rule valid_walk_snoc[OF w]) (simp add: last_stations_of m)
  then show ?case by (simp add: lines_of_not_Nil)
qed


section \<open>Independence of the iteration order of the line sets\<close>

text \<open>
  \<open>same_set\<close> relates two iteration orders of one set, \<open>same_dict\<close> two dicts with the
  same keys in the same order and related values; \<open>same_index\<close> and \<open>same_graph\<close> relate
  two indexes, resp. two graphs, that differ only in the order in which their sets of
  lines are iterated. \<open>same_nbrs\<close> is what the loop can see of this: the neighbour dict
  read for every station, up to the order inside the label sets.
\<close>

definition same_set :: "'a list \<Rightarrow> 'a list \<Rightarrow> bool" where
  "same_set xs ys = (set xs = set ys \<and> distinct xs \<and> distinct ys)"

definition same_dict :: "('v \<Rightarrow> 'v \<Rightarrow> bool) \<Rightarrow> ('k \<times> 'v) list \<Rightarrow> ('k \<times> 'v) list \<Rightarrow> bool" where
  "same_dict R d d' = list_all2 (\<lambda>p q. fst p = fst q \<and> R (snd p) (snd q)) d d'"

definition same_index :: "station_lines \<Rightarrow> station_lines \<Rightarrow> bool" where
  "same_index sl sl' = same_dict same_set sl sl'"

definition same_graph :: "graph \<Rightarrow> graph \<Rightarrow> bool" where
  "same_graph g g' = same_dict (same_dict same_set) g g'"

lemma same_dict_map_of:
  "same_dict R d d' \<Longrightarrow> rel_option R (map_of d k) (map_of d' k)"
  unfolding same_dict_def
  by (induction d d' rule: list_all2_induct) auto

lemma fold_distinct_perm:
  assumes "\<And>x y. x \<in> set xs \<Longrightarrow> y \<in> set xs \<Longrightarrow> f x \<circ> f y = f y \<circ> f x"
    and "distinct xs" and "distinct ys" and "set xs = set ys"
  shows "fold f xs = fold f ys"
  using assms
proof (induction ys arbitrary: xs)
  case Nil
  then show ?case by simp
next
  case (Cons y ys)
  from Cons.prems(4) have yin: "y \<in> set xs" by auto
  have c: "\<And>a b. a \<in> set (remove1 y xs) \<Longrightarrow> b \<in> set (remove1 y xs) \<Longrightarrow> f a \<circ> f b = f b \<circ> f a"
    using Cons.prems(1) by (meson notin_set_remove1)
  have d: "distinct (remove1 y xs)" using Cons.prems(2) by simp
  have s: "set (remove1 y xs) = set ys"
    using Cons.prems(2,3,4) by (auto simp: set_remove1_eq)
  have "fold f (remove1 y xs) = fold f ys"
    by (rule Cons.IH[OF c d _ s]) (use Cons.prems(3) in simp_all)
  moreover have "fold f xs = fold f (remove1 y xs) \<circ> f y"
    by (rule fold_remove1_split[OF Cons.prems(1) yin])
  ultimately show ?case by simp
qed

lemma seed_line_commute: "seed_line src x \<circ> seed_line src y = seed_line src y \<circ> seed_line src x"
proof (cases "x = y")
  case True
  then show ?thesis by simp
next
  case False
  have p: "prio (Entry 0 0 src x None) \<noteq> prio (Entry 0 0 src y None)"
    using False by (simp add: prio_def)
  show ?thesis
  proof (rule ext)
    fix acc :: "entry list \<times> visited"
    obtain pq vis where acc: "acc = (pq, vis)" by (cases acc)
    have "heappush (Entry 0 0 src x None) (heappush (Entry 0 0 src y None) pq) =
          heappush (Entry 0 0 src y None) (heappush (Entry 0 0 src x None) pq)"
      unfolding heappush_def by (rule insort_key_left_comm) (use p in simp)
    moreover have "vis((src, y) \<mapsto> (0, 1), (src, x) \<mapsto> (0, 1)) = vis((src, x) \<mapsto> (0, 1), (src, y) \<mapsto> (0, 1))"
      using False by (simp add: fun_upd_twist)
    ultimately show "(seed_line src x \<circ> seed_line src y) acc = (seed_line src y \<circ> seed_line src x) acc"
      by (simp add: acc seed_line_pair)
  qed
qed

lemma seed_same_set: "same_set ls ls' \<Longrightarrow> seed src ls = seed src ls'"
  unfolding seed_def same_set_def
  using fold_distinct_perm[of ls "seed_line src" ls'] seed_line_commute by metis

lemma choose_line_set:
  assumes "set lb = set lb'"
  shows "choose_line l lb = choose_line l lb'"
proof -
  have "(lb = []) = (lb' = [])" using assms set_empty[of lb] set_empty[of lb'] by simp
  then show ?thesis unfolding choose_line_def assms by simp
qed

lemma relax_same:
  "list_all2 (\<lambda>p q. fst p = fst q \<and> set (snd p) = set (snd q)) adj adj' \<Longrightarrow>
     relax cur adj pq vis = relax cur adj' pq vis"
proof (induction adj adj' arbitrary: pq vis rule: list_all2_induct)
  case Nil
  then show ?case by simp
next
  case (Cons a adj b adj')
  obtain nbr lb where a: "a = (nbr, lb)" by (cases a)
  obtain nbr' lb' where b: "b = (nbr', lb')" by (cases b)
  from Cons.hyps(1) a b have n: "nbr' = nbr" and l: "set lb = set lb'" by simp_all
  show ?case
    unfolding a b n relax.simps choose_line_set[OF l] Cons.IH ..
qed

definition same_nbrs :: "graph \<Rightarrow> graph \<Rightarrow> bool" where
  "same_nbrs g g' =
     (\<forall>u. list_all2 (\<lambda>p q. fst p = fst q \<and> set (snd p) = set (snd q)) (nbrs g u) (nbrs g' u))"

lemma same_nbrs_graph_after: "same_nbrs g g' \<Longrightarrow> same_nbrs (graph_after g u) (graph_after g' u)"
  by (simp add: same_nbrs_def nbrs_graph_after)

lemma same_nbrs_after_left: "same_nbrs (graph_after g u) g"
  unfolding same_nbrs_def nbrs_graph_after
  by (simp add: list_all2_refl)

lemma search_same_nbrs:
  "same_nbrs g g' \<Longrightarrow> fst (search dest pq vis g) = fst (search dest pq vis g')"
proof (induction dest pq vis g arbitrary: g' rule: search_cases_induct)
  case (empty dest vis g)
  then show ?case by (simp add: search_empty)
next
  case (stale dest e pq vis g)
  then show ?case by (simp add: search_stale)
next
  case (found dest e pq vis g)
  then show ?case by (simp add: search_found)
next
  case (error dest e pq vis g err)
  have "relax e (nbrs g' (e_curr e)) pq vis = Inl err"
    using relax_same[of "nbrs g (e_curr e)" "nbrs g' (e_curr e)" e pq vis] error.prems error.hyps(3)
    by (simp add: same_nbrs_def)
  then show ?case by (simp add: search_error[OF error.hyps] search_error[OF error.hyps(1,2)])
next
  case (expand dest e pq vis g pq' vis')
  have r: "relax e (nbrs g' (e_curr e)) pq vis = Inr (pq', vis')"
    using relax_same[of "nbrs g (e_curr e)" "nbrs g' (e_curr e)" e pq vis] expand.prems expand.hyps(3)
    by (simp add: same_nbrs_def)
  show ?case
    unfolding search_expand[OF expand.hyps(1,2,3)] search_expand[OF expand.hyps(1,2) r]
    by (rule expand.IH) (rule same_nbrs_graph_after[OF expand.prems])
qed

lemma search_graph_same_nbrs: "same_nbrs (snd (search dest pq vis g)) g"
proof (induction dest pq vis g rule: search_cases_induct)
  case (empty dest vis g)
  then show ?case by (simp add: search_empty same_nbrs_def list_all2_refl)
next
  case (stale dest e pq vis g)
  then show ?case by (simp add: search_stale)
next
  case (found dest e pq vis g)
  then show ?case by (simp add: search_found same_nbrs_def list_all2_refl)
next
  case (error dest e pq vis g err)
  then show ?case by (simp add: search_error same_nbrs_after_left)
next
  case (expand dest e pq vis g pq' vis')
  from expand.IH show ?case
    unfolding search_expand[OF expand.hyps] same_nbrs_def nbrs_graph_after .
qed


lemma fst_find_min_switch_path:
  "fst (find_min_switch_path g sl src dest) =
     (case map_of sl src of None \<Rightarrow> Inr None
      | Some ls \<Rightarrow>
          (case map_of sl dest of None \<Rightarrow> Inr None
           | Some ds \<Rightarrow>
               (case fst (search dest (fst (seed src ls)) (snd (seed src ls)) g) of
                  Inl err \<Rightarrow> Inl err
                | Inr None \<Rightarrow> Inr None
                | Inr (Some e) \<Rightarrow> Inr (Some (reconstruct e)))))"
  unfolding find_min_switch_path_def
  by (simp split: option.splits prod.splits sum.splits)

lemma snd_find_min_switch_path:
  "snd (find_min_switch_path g sl src dest) =
     (case map_of sl src of None \<Rightarrow> g
      | Some ls \<Rightarrow>
          (case map_of sl dest of None \<Rightarrow> g
           | Some ds \<Rightarrow> snd (search dest (fst (seed src ls)) (snd (seed src ls)) g)))"
  unfolding find_min_switch_path_def
  by (simp split: option.splits prod.splits sum.splits)

lemma same_nbrs_refl: "same_nbrs g g"
  by (simp add: same_nbrs_def list_all2_refl)

lemma same_graph_nbrs: 
  assumes "same_graph g g'"
  shows "same_nbrs g g'"
  unfolding same_nbrs_def
proof
  fix u
  from assms have r: "rel_option (same_dict same_set) (map_of g u) (map_of g' u)"
    unfolding same_graph_def by (rule same_dict_map_of)
  show "list_all2 (\<lambda>p q. fst p = fst q \<and> set (snd p) = set (snd q)) (nbrs g u) (nbrs g' u)"
  proof (cases "map_of g u")
    case None
    with r have "map_of g' u = None" by simp
    with None show ?thesis by (simp add: nbrs_def)
  next
    case (Some adj)
    with r obtain adj' where a': "map_of g' u = Some adj'" and sd: "same_dict same_set adj adj'"
      by (auto simp: option_rel_Some1)
    from sd have "list_all2 (\<lambda>p q. fst p = fst q \<and> set (snd p) = set (snd q)) adj adj'"
      unfolding same_dict_def by (rule list_all2_mono) (simp add: same_set_def)
    with Some a' show ?thesis by (simp add: nbrs_def)
  qed
qed

lemma find_same_nbrs:
  assumes "same_nbrs g g'"
  shows "fst (find_min_switch_path g sl src dest) = fst (find_min_switch_path g' sl src dest)"
  unfolding fst_find_min_switch_path search_same_nbrs[OF assms] ..

lemma find_same_index:
  assumes "same_index sl sl'"
  shows "fst (find_min_switch_path g sl src dest) = fst (find_min_switch_path g sl' src dest)"
proof -
  have s: "rel_option same_set (map_of sl src) (map_of sl' src)"
    and d: "rel_option same_set (map_of sl dest) (map_of sl' dest)"
    using assms unfolding same_index_def by (rule same_dict_map_of)+
  show ?thesis
  proof (cases "map_of sl src")
    case None
    with s have "map_of sl' src = None" by simp
    with None show ?thesis by (simp add: fst_find_min_switch_path)
  next
    case (Some ls)
    with s obtain ls' where l': "map_of sl' src = Some ls'" and ss: "same_set ls ls'"
      by (auto simp: option_rel_Some1)
    show ?thesis
    proof (cases "map_of sl dest")
      case None
      with d have "map_of sl' dest = None" by simp
      with None Some l' show ?thesis by (simp add: fst_find_min_switch_path)
    next
      case ds: (Some ds)
      with d obtain ds' where d': "map_of sl' dest = Some ds'" by (auto simp: option_rel_Some1)
      show ?thesis
        unfolding fst_find_min_switch_path Some l' ds d' option.case seed_same_set[OF ss] ..
    qed
  qed
qed


section \<open>Reachability and the end of the search\<close>

text \<open>
  \<open>reachable g src dest\<close>: the destination is reached from the source over edges of the
  graph. \<open>labels_ok\<close>: no edge has an empty label set. \<open>frontier_inv\<close> is the invariant
  of the loop: every visited (station, line) key still has an entry in the queue that
  is not stale, or its station is not the destination and all neighbours of its station
  are visited.
\<close>

definition edge_rel :: "graph \<Rightarrow> (station \<times> station) set" where
  "edge_rel g = {(a, b). b \<in> fst ` set (nbrs g a)}"

definition reachable :: "graph \<Rightarrow> station \<Rightarrow> station \<Rightarrow> bool" where
  "reachable g src dest = ((src, dest) \<in> (edge_rel g)\<^sup>*)"

definition labels_ok :: "graph \<Rightarrow> bool" where
  "labels_ok g = list_all (\<lambda>entry. list_all (\<lambda>nb. snd nb \<noteq> []) (snd entry)) g"

definition pending :: "entry list \<Rightarrow> visited \<Rightarrow> station \<times> line \<Rightarrow> bool" where
  "pending pq vis k = (\<exists>e \<in> set pq. (e_curr e, e_line e) = k \<and> \<not> stale vis e)"

definition closed :: "graph \<Rightarrow> visited \<Rightarrow> station \<Rightarrow> bool" where
  "closed g vis u = (\<forall>p \<in> set (nbrs g u). \<exists>l. (fst p, l) \<in> dom vis)"

definition frontier_inv :: "station \<Rightarrow> entry list \<Rightarrow> visited \<Rightarrow> graph \<Rightarrow> bool" where
  "frontier_inv dest pq vis g =
     (\<forall>k \<in> dom vis. pending pq vis k \<or> (fst k \<noteq> dest \<and> closed g vis (fst k)))"

lemma edge_rel_graph_after: "edge_rel (graph_after g u) = edge_rel g"
  by (simp add: edge_rel_def nbrs_graph_after)

lemma reachable_graph_after: "reachable (graph_after g u) a b = reachable g a b"
  by (simp add: reachable_def edge_rel_graph_after)

lemma closed_graph_after: "closed (graph_after g u) vis v = closed g vis v"
  by (simp add: closed_def nbrs_graph_after)

lemma labels_ok_nbrs: "labels_ok g \<Longrightarrow> p \<in> set (nbrs g u) \<Longrightarrow> snd p \<noteq> []"
proof (cases "map_of g u")
  case None
  assume "p \<in> set (nbrs g u)"
  with None show ?thesis by (simp add: nbrs_def)
next
  case (Some adj)
  assume a: "labels_ok g" and b: "p \<in> set (nbrs g u)"
  from Some have "(u, adj) \<in> set g" by (rule map_of_SomeD)
  with a have "list_all (\<lambda>nb. snd nb \<noteq> []) adj"
    unfolding labels_ok_def list_all_iff by force
  with b Some show ?thesis by (simp add: nbrs_def list_all_iff)
qed

lemma labels_ok_graph_after: "labels_ok g \<Longrightarrow> labels_ok (graph_after g u)"
  by (auto simp: labels_ok_def graph_after_def dd_get_def split: option.splits)

text \<open>Facts about one run of \<open>relax\<close>.\<close>

lemma relax_no_error:
  "(\<And>p. p \<in> set adj \<Longrightarrow> snd p \<noteq> []) \<Longrightarrow> \<exists>r. relax cur adj pq vis = Inr r"
proof (induction adj arbitrary: pq vis)
  case Nil
  then show ?case by simp
next
  case (Cons a adj)
  obtain nbr lb where a: "a = (nbr, lb)" by (cases a)
  from Cons.prems[of a] a have "lb \<noteq> []" by simp
  then have "\<exists>el. choose_line (e_line cur) lb = Inr el"
    by (cases "e_line cur \<in> set lb") (simp_all add: choose_line_def)
  then obtain el where el: "choose_line (e_line cur) lb = Inr el" ..
  have rest: "\<exists>r. relax cur adj pq' vis' = Inr r" for pq' vis'
    by (rule Cons.IH) (simp add: Cons.prems)
  show ?case
    unfolding a relax.simps el sum.case Let_def
    using rest by (simp split: if_splits)
qed

lemma relax_step:
  assumes "choose_line (e_line cur) lb = Inr el"
  shows "relax cur ((nbr, lb) # adj) pq vis =
     (if improves (e_switches cur + (if el \<noteq> e_line cur then 1 else 0), e_stations cur + 1) (vis (nbr, el))
      then relax cur adj
             (heappush (Entry (e_switches cur + (if el \<noteq> e_line cur then 1 else 0)) (e_stations cur + 1)
                nbr el (Some cur)) pq)
             (vis((nbr, el) \<mapsto> (e_switches cur + (if el \<noteq> e_line cur then 1 else 0), e_stations cur + 1)))
      else relax cur adj pq vis)"
  using assms by (simp add: Let_def)

lemma relax_Cons_cases:
  assumes "relax cur ((nbr, lb) # adj) pq vis = Inr (pq', vis')"
  obtains (push) el c where "choose_line (e_line cur) lb = Inr el"
      "c = (e_switches cur + (if el \<noteq> e_line cur then 1 else 0), e_stations cur + 1)"
      "improves c (vis (nbr, el))"
      "relax cur adj (heappush (Entry (fst c) (snd c) nbr el (Some cur)) pq) (vis((nbr, el) \<mapsto> c)) = Inr (pq', vis')"
    | (skip) el c where "choose_line (e_line cur) lb = Inr el"
      "c = (e_switches cur + (if el \<noteq> e_line cur then 1 else 0), e_stations cur + 1)"
      "\<not> improves c (vis (nbr, el))"
      "relax cur adj pq vis = Inr (pq', vis')"
proof -
  from assms obtain el where el: "choose_line (e_line cur) lb = Inr el"
    by (auto split: sum.splits)
  define c where "c = (e_switches cur + (if el \<noteq> e_line cur then 1 else 0), e_stations cur + 1)"
  show thesis
  proof (cases "improves c (vis (nbr, el))")
    case True
    with assms have "relax cur adj (heappush (Entry (fst c) (snd c) nbr el (Some cur)) pq) (vis((nbr, el) \<mapsto> c)) = Inr (pq', vis')"
      unfolding relax_step[OF el] c_def by simp
    with el c_def True show thesis by (rule push)
  next
    case False
    with assms have "relax cur adj pq vis = Inr (pq', vis')"
      unfolding relax_step[OF el] c_def by simp
    with el c_def False show thesis by (rule skip)
  qed
qed

lemma relax_keeps_queue:
  "relax cur adj pq vis = Inr (pq', vis') \<Longrightarrow> set pq \<subseteq> set pq'"
proof (induction adj arbitrary: pq vis)
  case Nil
  then show ?case by simp
next
  case (Cons a adj)
  obtain nbr lb where a: "a = (nbr, lb)" by (cases a)
  from Cons.prems[unfolded a] show ?case
  proof (cases rule: relax_Cons_cases)
    case (push el c)
    from Cons.IH[OF push(4)] show ?thesis by (auto simp: set_heappush)
  next
    case (skip el c)
    from Cons.IH[OF skip(4)] show ?thesis .
  qed
qed

lemma relax_keeps_dom:
  "relax cur adj pq vis = Inr (pq', vis') \<Longrightarrow> dom vis \<subseteq> dom vis'"
proof (induction adj arbitrary: pq vis)
  case Nil
  then show ?case by simp
next
  case (Cons a adj)
  obtain nbr lb where a: "a = (nbr, lb)" by (cases a)
  from Cons.prems[unfolded a] show ?case
  proof (cases rule: relax_Cons_cases)
    case (push el c)
    have "dom vis \<subseteq> dom (vis((nbr, el) \<mapsto> c))" by (simp add: subset_insertI)
    also note Cons.IH[OF push(4)]
    finally show ?thesis .
  next
    case (skip el c)
    from Cons.IH[OF skip(4)] show ?thesis .
  qed
qed

lemma improves_None_or_Some: "\<not> improves c best \<Longrightarrow> best \<noteq> None"
  by (cases best) (simp_all add: improves_def)

lemma relax_reaches_neighbours:
  "relax cur adj pq vis = Inr (pq', vis') \<Longrightarrow> p \<in> set adj \<Longrightarrow> \<exists>l. (fst p, l) \<in> dom vis'"
proof (induction adj arbitrary: pq vis)
  case Nil
  then show ?case by simp
next
  case (Cons a adj)
  obtain nbr lb where a: "a = (nbr, lb)" by (cases a)
  from Cons.prems(1)[unfolded a] show ?case
  proof (cases rule: relax_Cons_cases)
    case (push el c)
    show ?thesis
    proof (cases "p = a")
      case True
      have "(nbr, el) \<in> dom (vis((nbr, el) \<mapsto> c))" by simp
      with relax_keeps_dom[OF push(4)] have "(nbr, el) \<in> dom vis'" by blast
      with True a show ?thesis by auto
    next
      case False
      with Cons.prems(2) have "p \<in> set adj" by simp
      from Cons.IH[OF push(4) this] show ?thesis .
    qed
  next
    case (skip el c)
    show ?thesis
    proof (cases "p = a")
      case True
      from improves_None_or_Some[OF skip(3)] have "(nbr, el) \<in> dom vis" by auto
      with relax_keeps_dom[OF skip(4)] have "(nbr, el) \<in> dom vis'" by blast
      with True a show ?thesis by auto
    next
      case False
      with Cons.prems(2) have "p \<in> set adj" by simp
      from Cons.IH[OF skip(4) this] show ?thesis .
    qed
  qed
qed

lemma relax_changed_key_pending:
  "relax cur adj pq vis = Inr (pq', vis') \<Longrightarrow>
     vis' k = vis k \<or>
     (\<exists>n \<in> set pq'. (e_curr n, e_line n) = k \<and> vis' k = Some (e_switches n, e_stations n))"
proof (induction adj arbitrary: pq vis)
  case Nil
  then show ?case by simp
next
  case (Cons a adj)
  obtain nbr lb where a: "a = (nbr, lb)" by (cases a)
  from Cons.prems[unfolded a] show ?case
  proof (cases rule: relax_Cons_cases)
    case (push el c)
    let ?n = "Entry (fst c) (snd c) nbr el (Some cur)"
    from Cons.IH[OF push(4)]
    consider "vis' k = (vis((nbr, el) \<mapsto> c)) k"
      | "\<exists>n \<in> set pq'. (e_curr n, e_line n) = k \<and> vis' k = Some (e_switches n, e_stations n)"
      by blast
    then show ?thesis
    proof cases
      case 1
      show ?thesis
      proof (cases "k = (nbr, el)")
        case True
        have "?n \<in> set pq'" using relax_keeps_queue[OF push(4)] by (auto simp: set_heappush)
        moreover have "(e_curr ?n, e_line ?n) = k" using True by simp
        moreover have "vis' k = Some (e_switches ?n, e_stations ?n)" using 1 True by simp
        ultimately show ?thesis by blast
      next
        case False
        with 1 show ?thesis by simp
      qed
    next
      case 2
      then show ?thesis by blast
    qed
  next
    case (skip el c)
    from Cons.IH[OF skip(4)] show ?thesis .
  qed
qed


text \<open>The loop raises no exception when no label set is empty.\<close>

lemma search_no_error: "labels_ok g \<Longrightarrow> fst (search dest pq vis g) \<noteq> Inl err"
proof (induction dest pq vis g rule: search_cases_induct)
  case (empty dest vis g)
  then show ?case by (simp add: search_empty)
next
  case (stale dest e pq vis g)
  then show ?case by (simp add: search_stale)
next
  case (found dest e pq vis g)
  then show ?case by (simp add: search_found)
next
  case (error dest e pq vis g err')
  have "\<exists>r. relax e (nbrs g (e_curr e)) pq vis = Inr r"
    by (rule relax_no_error) (rule labels_ok_nbrs[OF error.prems])
  with error.hyps(3) show ?case by simp
next
  case (expand dest e pq vis g pq' vis')
  from expand.IH[OF labels_ok_graph_after[OF expand.prems]] show ?case
    by (simp add: search_expand[OF expand.hyps])
qed

text \<open>A found entry sits at a station reachable from the source.\<close>

lemma search_found_reachable:
  "search dest pq vis g = (Inr (Some e), g') \<Longrightarrow>
     (\<And>x. x \<in> set pq \<Longrightarrow> reachable g src (e_curr x)) \<Longrightarrow> reachable g src dest"
proof (induction dest pq vis g rule: search_cases_induct)
  case (empty dest vis g)
  then show ?case by (simp add: search_empty)
next
  case (stale dest x pq vis g)
  from stale.prems(1) have s: "search dest pq vis g = (Inr (Some e), g')"
    by (simp add: search_stale[OF stale.hyps])
  show ?case by (rule stale.IH[OF s]) (simp add: stale.prems(2))
next
  case (found dest x pq vis g)
  from found.prems(2)[of x] found.hyps(2) show ?case by simp
next
  case (error dest x pq vis g err)
  from error.prems(1) show ?case by (simp add: search_error[OF error.hyps])
next
  case (expand dest x pq vis g pq1 vis1)
  from expand.prems(1) have s: "search dest pq1 vis1 (graph_after g (e_curr x)) = (Inr (Some e), g')"
    by (simp add: search_expand[OF expand.hyps])
  have inv: "reachable (graph_after g (e_curr x)) src (e_curr y)" if y: "y \<in> set pq1" for y
  proof -
    from relax_new_entries[OF expand.hyps(3) y]
    consider "y \<in> set pq"
      | nbr lb where "(nbr, lb) \<in> set (nbrs g (e_curr x))" "e_curr y = nbr"
      by blast
    then have "reachable g src (e_curr y)"
    proof cases
      case 1
      then show ?thesis by (simp add: expand.prems(2))
    next
      case 2
      then have "(e_curr x, e_curr y) \<in> edge_rel g"
        unfolding edge_rel_def by force
      moreover have "reachable g src (e_curr x)" by (simp add: expand.prems(2))
      ultimately show ?thesis unfolding reachable_def by (rule rtrancl_into_rtrancl[rotated])
    qed
    then show ?thesis by (simp add: reachable_graph_after)
  qed
  from expand.IH[OF s inv] show ?case by (simp add: reachable_graph_after)
qed

text \<open>When the queue runs empty, no visited station is the destination and the visited
  stations are closed under the edges.\<close>

lemma not_stale_after:
  assumes "vis' (e_curr e, e_line e) = vis (e_curr e, e_line e)" and "\<not> stale vis e"
  shows "\<not> stale vis' e"
  using assms by (simp add: stale_def)

lemma not_stale_fresh:
  assumes "vis (e_curr n, e_line n) = Some (e_switches n, e_stations n)"
  shows "\<not> stale vis n"
  using assms by (simp add: stale_def seen_below_def)

lemma closed_mono: "closed g vis u \<Longrightarrow> dom vis \<subseteq> dom vis' \<Longrightarrow> closed g vis' u"
  unfolding closed_def by blast

lemma frontier_inv_stale:
  assumes "frontier_inv dest (e # pq) vis g" and "stale vis e"
  shows "frontier_inv dest pq vis g"
  unfolding frontier_inv_def
proof
  fix k assume "k \<in> dom vis"
  with assms(1) consider "pending (e # pq) vis k" | "fst k \<noteq> dest \<and> closed g vis (fst k)"
    unfolding frontier_inv_def by blast
  then show "pending pq vis k \<or> (fst k \<noteq> dest \<and> closed g vis (fst k))"
  proof cases
    case 1
    then obtain x where x: "x \<in> set (e # pq)" "(e_curr x, e_line x) = k" "\<not> stale vis x"
      unfolding pending_def by blast
    with assms(2) have "x \<in> set pq" by auto
    with x show ?thesis unfolding pending_def by blast
  next
    case 2
    then show ?thesis by blast
  qed
qed

lemma frontier_inv_expand:
  assumes inv: "frontier_inv dest (e # pq) vis g"
    and nd: "e_curr e \<noteq> dest"
    and rl: "relax e (nbrs g (e_curr e)) pq vis = Inr (pq', vis')"
  shows "frontier_inv dest pq' vis' (graph_after g (e_curr e))"
  unfolding frontier_inv_def closed_graph_after
proof
  fix k assume k: "k \<in> dom vis'"
  note dm = relax_keeps_dom[OF rl]
  note qu = relax_keeps_queue[OF rl]
  from relax_changed_key_pending[OF rl, of k]
  consider (same) "vis' k = vis k"
    | (fresh) n where "n \<in> set pq'" "(e_curr n, e_line n) = k" "vis' k = Some (e_switches n, e_stations n)"
    by blast
  then show "pending pq' vis' k \<or> (fst k \<noteq> dest \<and> closed g vis' (fst k))"
  proof cases
    case fresh
    from fresh(2,3) have "\<not> stale vis' n" by (intro not_stale_fresh) simp
    with fresh(1,2) show ?thesis unfolding pending_def by blast
  next
    case same
    with k have "k \<in> dom vis" by (simp add: dom_def)
    with inv consider "pending (e # pq) vis k" | "fst k \<noteq> dest \<and> closed g vis (fst k)"
      unfolding frontier_inv_def by blast
    then show ?thesis
    proof cases
      case 1
      then obtain x where x: "x \<in> set (e # pq)" "(e_curr x, e_line x) = k" "\<not> stale vis x"
        unfolding pending_def by blast
      show ?thesis
      proof (cases "x = e")
        case True
        have "closed g vis' (e_curr e)"
          unfolding closed_def using relax_reaches_neighbours[OF rl] by blast
        with True x(2) nd show ?thesis by auto
      next
        case False
        with x(1) qu have "x \<in> set pq'" by auto
        moreover have "\<not> stale vis' x"
          by (rule not_stale_after[OF _ x(3)]) (simp add: x(2) same)
        ultimately show ?thesis using x(2) unfolding pending_def by blast
      qed
    next
      case 2
      with closed_mono[OF _ dm] show ?thesis by blast
    qed
  qed
qed

lemma closed_visited_reach:
  assumes cl: "\<And>k. k \<in> dom vis \<Longrightarrow> closed g vis (fst k)"
    and src: "src \<in> fst ` dom vis"
    and r: "reachable g src v"
  shows "v \<in> fst ` dom vis"
  using r unfolding reachable_def
proof (induction rule: rtrancl_induct)
  case base
  show ?case by (rule src)
next
  case (step y z)
  from step.IH obtain k where k: "k \<in> dom vis" "fst k = y" by auto
  from step.hyps(2) obtain p where p: "p \<in> set (nbrs g y)" "fst p = z"
    unfolding edge_rel_def by auto
  from cl[OF k(1)] k(2) p obtain l where "(z, l) \<in> dom vis"
    unfolding closed_def by blast
  then show ?case by force
qed

lemma search_none_unreachable:
  "search dest pq vis g = (Inr None, g') \<Longrightarrow> frontier_inv dest pq vis g \<Longrightarrow>
     src \<in> fst ` dom vis \<Longrightarrow> \<not> reachable g src dest"
proof (induction dest pq vis g rule: search_cases_induct)
  case (empty dest vis g)
  have np: "\<not> pending [] vis k" for k by (simp add: pending_def)
  from empty.prems(2) have cl: "\<And>k. k \<in> dom vis \<Longrightarrow> fst k \<noteq> dest \<and> closed g vis (fst k)"
    unfolding frontier_inv_def using np by blast
  show ?case
  proof
    assume "reachable g src dest"
    with cl empty.prems(3) have "dest \<in> fst ` dom vis"
      by (intro closed_visited_reach[of vis g src dest]) simp_all
    with cl show False by auto
  qed
next
  case (stale dest e pq vis g)
  from stale.prems(1) have s: "search dest pq vis g = (Inr None, g')"
    by (simp add: search_stale[OF stale.hyps])
  show ?case
    by (rule stale.IH[OF s frontier_inv_stale[OF stale.prems(2) stale.hyps] stale.prems(3)])
next
  case (found dest e pq vis g)
  from found.prems(1) show ?case by (simp add: search_found[OF found.hyps])
next
  case (error dest e pq vis g err)
  from error.prems(1) show ?case by (simp add: search_error[OF error.hyps])
next
  case (expand dest e pq vis g pq' vis')
  from expand.prems(1) have s: "search dest pq' vis' (graph_after g (e_curr e)) = (Inr None, g')"
    by (simp add: search_expand[OF expand.hyps])
  have src: "src \<in> fst ` dom vis'"
    using expand.prems(3) relax_keeps_dom[OF expand.hyps(3)] by blast
  from expand.IH[OF s frontier_inv_expand[OF expand.prems(2) expand.hyps(2,3)] src]
  show ?case by (simp add: reachable_graph_after)
qed

lemma seed_frontier_inv:
  assumes "seed src ls = (pq, vis)"
  shows "frontier_inv dest pq vis g"
  unfolding frontier_inv_def
proof
  fix k assume "k \<in> dom vis"
  then obtain l where l: "l \<in> set ls" and k: "k = (src, l)"
    unfolding seed_props(2)[OF assms] by (auto split: if_splits)
  let ?e = "Entry 0 0 src l None"
  have "?e \<in> set pq" unfolding seed_props(1)[OF assms] using l by blast
  moreover have "vis (src, l) = Some (0, 1)" unfolding seed_props(2)[OF assms] using l by simp
  then have "\<not> stale vis ?e" by (simp add: stale_def seen_below_def)
  ultimately have "pending pq vis k" unfolding pending_def k by force
  then show "pending pq vis k \<or> (fst k \<noteq> dest \<and> closed g vis (fst k))" ..
qed


section \<open>The queue holds no two entries of the same priority\<close>

text \<open>
  \<open>queue_ok\<close>: the queue is sorted by \<open>prio\<close>, no two entries have the same \<open>prio\<close>,
  and every entry is a seed entry (station count 0) or costs at least what \<open>visited\<close>
  records for its state. It holds after the seeding of a set of lines, and a pop and an
  expansion keep it; with it the head of the queue is the one least entry.
\<close>

definition queue_ok :: "entry list \<Rightarrow> visited \<Rightarrow> bool" where
  "queue_ok pq vis =
     (sorted (map prio pq) \<and> distinct (map prio pq) \<and>
      list_all (\<lambda>e. e_stations e = 0 \<or>
         (case vis (e_curr e, e_line e) of None \<Rightarrow> False
          | Some c \<Rightarrow> c \<le> (e_switches e, e_stations e))) pq)"

lemma queue_ok_Nil: "queue_ok [] vis"
  by (simp add: queue_ok_def)

lemma queue_ok_pop: "queue_ok (e # pq) vis \<Longrightarrow> queue_ok pq vis"
  by (simp add: queue_ok_def)

lemma queue_ok_head_least: "queue_ok (e # pq) vis \<Longrightarrow> x \<in> set pq \<Longrightarrow> prio e < prio x"
proof -
  assume q: "queue_ok (e # pq) vis" and x: "x \<in> set pq"
  from q x have "prio e \<le> prio x" by (auto simp: queue_ok_def)
  moreover from q x have "prio e \<noteq> prio x" by (auto simp: queue_ok_def)
  ultimately show ?thesis by simp
qed

lemma queue_ok_push:
  assumes q: "queue_ok pq vis" and i: "improves c (vis (nbr, el))" and s: "0 < snd c"
  shows "queue_ok (heappush (Entry (fst c) (snd c) nbr el par) pq) (vis((nbr, el) \<mapsto> c))"
proof -
  let ?n = "Entry (fst c) (snd c) nbr el par"
  let ?vis = "vis((nbr, el) \<mapsto> c)"
  let ?ok = "\<lambda>vis e. e_stations e = 0 \<or>
         (case vis (e_curr e, e_line e) of None \<Rightarrow> False
          | Some c \<Rightarrow> c \<le> (e_switches e, e_stations e))"
  from q have srt: "sorted (map prio pq)" and dst: "distinct (map prio pq)"
    and ok: "\<And>e. e \<in> set pq \<Longrightarrow> ?ok vis e"
    by (simp_all add: queue_ok_def list_all_iff)
  have fresh: "prio ?n \<notin> prio ` set pq"
  proof
    assume "prio ?n \<in> prio ` set pq"
    then obtain e where e: "e \<in> set pq" "prio e = prio ?n" by auto
    then have k: "(e_curr e, e_line e) = (nbr, el)" and ce: "(e_switches e, e_stations e) = c"
      by (simp_all add: prio_def)
    from ce s have "e_stations e \<noteq> 0" by auto
    with ok[OF e(1)] k ce obtain b where b: "vis (nbr, el) = Some b" "b \<le> c"
      by (auto split: option.splits)
    with i show False by (simp add: improves_def)
  qed
  have ok': "?ok ?vis e" if "e \<in> set (heappush ?n pq)" for e
  proof (cases "(e_curr e, e_line e) = (nbr, el)")
    case False
    with that have "e \<in> set pq" by (auto simp: set_heappush)
    from ok[OF this] False show ?thesis by auto
  next
    case True
    from that consider "e = ?n" | "e \<in> set pq" by (auto simp: set_heappush)
    then show ?thesis
    proof cases
      case 1
      then show ?thesis by simp
    next
      case 2
      from ok[OF 2] show ?thesis
      proof
        assume "e_stations e = 0"
        then show ?thesis by simp
      next
        assume "case vis (e_curr e, e_line e) of None \<Rightarrow> False
          | Some c \<Rightarrow> c \<le> (e_switches e, e_stations e)"
        with True obtain b where b: "vis (nbr, el) = Some b" "b \<le> (e_switches e, e_stations e)"
          by (auto split: option.splits)
        with i have "c < b" by (simp add: improves_def)
        with b(2) have "c \<le> (e_switches e, e_stations e)" by (meson less_le_trans less_imp_le)
        with True show ?thesis by simp
      qed
    qed
  qed
  show ?thesis
    unfolding queue_ok_def list_all_iff heappush_def sorted_insort_key distinct_insort_key
    using srt dst fresh ok' by (simp add: heappush_def)
qed

lemma relax_queue_ok:
  "relax cur adj pq vis = Inr (pq', vis') \<Longrightarrow> queue_ok pq vis \<Longrightarrow> queue_ok pq' vis'"
proof (induction adj arbitrary: pq vis)
  case Nil
  then show ?case by simp
next
  case (Cons a adj)
  obtain nbr lb where a: "a = (nbr, lb)" by (cases a)
  from Cons.prems(1)[unfolded a] show ?case
  proof (cases rule: relax_Cons_cases)
    case (push el c)
    have "queue_ok (heappush (Entry (fst c) (snd c) nbr el (Some cur)) pq) (vis((nbr, el) \<mapsto> c))"
      by (rule queue_ok_push[OF Cons.prems(2) push(3)]) (simp add: push(2))
    from Cons.IH[OF push(4) this] show ?thesis .
  next
    case (skip el c)
    from Cons.IH[OF skip(4) Cons.prems(2)] show ?thesis .
  qed
qed

lemma seed_fold_queue_ok:
  "fold (seed_line src) ls (pq, vis) = (pq', vis') \<Longrightarrow> distinct ls \<Longrightarrow>
     (\<And>l. l \<in> set ls \<Longrightarrow> prio (Entry 0 0 src l None) \<notin> prio ` set pq) \<Longrightarrow>
     queue_ok pq vis \<Longrightarrow> queue_ok pq' vis'"
proof (induction ls arbitrary: pq vis)
  case Nil
  then show ?case by simp
next
  case (Cons l ls)
  let ?n = "Entry 0 0 src l None"
  let ?pq = "heappush ?n pq"
  let ?vis = "vis((src, l) \<mapsto> (0, 1))"
  from Cons.prems(1) have f: "fold (seed_line src) ls (?pq, ?vis) = (pq', vis')"
    by (simp add: seed_line_pair)
  from Cons.prems(2) have d: "distinct ls" and nl: "l \<notin> set ls" by simp_all
  have fresh: "prio (Entry 0 0 src m None) \<notin> prio ` set ?pq" if "m \<in> set ls" for m
  proof -
    from that nl have "m \<noteq> l" by auto
    then have "prio (Entry 0 0 src m None) \<noteq> prio ?n" by (simp add: prio_def)
    moreover have "prio (Entry 0 0 src m None) \<notin> prio ` set pq"
      by (rule Cons.prems(3)) (simp add: that)
    ultimately show ?thesis by (auto simp: set_heappush)
  qed
  from Cons.prems(4) have srt: "sorted (map prio pq)" and dst: "distinct (map prio pq)"
    and ok: "list_all (\<lambda>e. e_stations e = 0 \<or>
         (case vis (e_curr e, e_line e) of None \<Rightarrow> False
          | Some c \<Rightarrow> c \<le> (e_switches e, e_stations e))) pq"
    by (simp_all add: queue_ok_def)
  have ok': "e_stations e = 0 \<or>
         (case ?vis (e_curr e, e_line e) of None \<Rightarrow> False
          | Some c \<Rightarrow> c \<le> (e_switches e, e_stations e))" if "e \<in> set ?pq" for e
  proof (cases "e = ?n")
    case True
    then show ?thesis by simp
  next
    case False
    with that have e: "e \<in> set pq" by (auto simp: set_heappush)
    show ?thesis
    proof (cases "e_stations e = 0")
      case True
      then show ?thesis by simp
    next
      case ns: False
      with ok e obtain b where b: "vis (e_curr e, e_line e) = Some b" "b \<le> (e_switches e, e_stations e)"
        by (auto simp: list_all_iff split: option.splits)
      show ?thesis
      proof (cases "(e_curr e, e_line e) = (src, l)")
        case True
        have "(0::nat, 1::nat) \<le> (e_switches e, e_stations e)" using ns by auto
        with True show ?thesis by simp
      next
        case False
        with b show ?thesis by auto
      qed
    qed
  qed
  have "queue_ok ?pq ?vis"
    unfolding queue_ok_def list_all_iff heappush_def sorted_insort_key distinct_insort_key
    using srt dst Cons.prems(3)[of l] ok' by (simp add: heappush_def)
  from Cons.IH[OF f d fresh this] show ?case .
qed

lemma seed_queue_ok: "distinct ls \<Longrightarrow> seed src ls = (pq, vis) \<Longrightarrow> queue_ok pq vis"
  unfolding seed_def
  by (rule seed_fold_queue_ok[of src ls "[]" Map.empty]) (simp_all add: queue_ok_Nil)

section \<open>The built graph and index are well formed\<close>

text \<open>
  The dicts the builder returns have no key twice, no edge of the built graph has an
  empty label set, and no entry of the built index is empty: the hypotheses
  \<open>graph_ok\<close> and \<open>labels_ok\<close> and the non-empty entry of the source hold for
  everything the builder returns.
\<close>

lemma set_update_distinct:
  "distinct (map fst al) \<Longrightarrow> set (AList.update k v al) = insert (k, v) {p \<in> set al. fst p \<noteq> k}"
proof (induction al)
  case Nil
  then show ?case by simp
next
  case (Cons p al)
  show ?case
  proof (cases "fst p = k")
    case True
    from Cons.prems have "fst p \<notin> fst ` set al" by simp
    with True have "\<And>q. q \<in> set al \<Longrightarrow> fst q \<noteq> k" by blast
    then have "{q \<in> set al. fst q \<noteq> k} = set al" by blast
    with True show ?thesis by auto
  next
    case False
    with Cons show ?thesis by auto
  qed
qed

lemma dd_get_distinct:
  "distinct (map fst d) \<Longrightarrow> distinct (map fst (snd (dd_get dflt d k)))"
proof (cases "map_of d k")
  case None
  assume "distinct (map fst d)"
  moreover from None have "k \<notin> fst ` set d" by (simp add: map_of_eq_None_iff)
  ultimately show ?thesis using None by (simp add: dd_get_def)
next
  case (Some v)
  assume "distinct (map fst d)"
  with Some show ?thesis by (simp add: dd_get_def)
qed

lemma dd_get_entries:
  "set (snd (dd_get dflt d k)) \<subseteq> insert (k, dflt) (set d)"
  by (cases "map_of d k") (auto simp: dd_get_def)

lemma dd_get_value_cases:
  "fst (dd_get dflt d k) = dflt \<or> (k, fst (dd_get dflt d k)) \<in> set d"
  by (cases "map_of d k") (auto simp: dd_get_def dest: map_of_SomeD)

lemma distinct_set_add: "distinct xs \<Longrightarrow> distinct (set_add x xs)"
  by (simp add: set_add_def)

text \<open>A dict access followed by a store under the same key.\<close>

lemma store_entries:
  assumes "distinct (map fst d)"
  shows "set (AList.update k v (snd (dd_get dflt d k))) \<subseteq> insert (k, v) (set d)"
proof -
  have "set (AList.update k v (snd (dd_get dflt d k))) =
      insert (k, v) {p \<in> set (snd (dd_get dflt d k)). fst p \<noteq> k}"
    by (rule set_update_distinct[OF dd_get_distinct[OF assms]])
  also have "\<dots> \<subseteq> insert (k, v) (set d)"
    using dd_get_entries[of dflt d k] by auto
  finally show ?thesis .
qed

lemma store_distinct:
  "distinct (map fst d) \<Longrightarrow> distinct (map fst (AList.update k v (snd (dd_get dflt d k))))"
  by (intro distinct_update dd_get_distinct)

definition index_ok :: "station_lines \<Rightarrow> bool" where
  "index_ok sl = (distinct (map fst sl) \<and> list_all (\<lambda>entry. snd entry \<noteq> [] \<and> distinct (snd entry)) sl)"

definition built_ok :: "graph \<Rightarrow> bool" where
  "built_ok g = (distinct (map fst g) \<and> graph_ok g \<and> labels_ok g \<and>
     list_all (\<lambda>entry. list_all (\<lambda>nb. distinct (snd nb)) (snd entry)) g)"

lemma add_station_line_unfold:
  "add_station_line l s sl =
     AList.update s (set_add l (fst (dd_get [] sl s))) (snd (dd_get [] sl s))"
  by (simp add: add_station_line_def case_prod_beta)

lemma index_ok_add_station_line:
  assumes "index_ok sl"
  shows "index_ok (add_station_line l s sl)"
proof -
  from assms have d: "distinct (map fst sl)"
    and e: "\<forall>p \<in> set sl. snd p \<noteq> [] \<and> distinct (snd p)"
    by (simp_all add: index_ok_def list_all_iff)
  let ?v = "set_add l (fst (dd_get [] sl s))"
  have "distinct (fst (dd_get [] sl s))"
    using dd_get_value_cases[of "[]" sl s] e by force
  then have v: "?v \<noteq> [] \<and> distinct ?v" by (simp add: set_add_not_Nil distinct_set_add)
  have "snd p \<noteq> [] \<and> distinct (snd p)" if "p \<in> set (add_station_line l s sl)" for p
  proof -
    from that store_entries[OF d, of s ?v "[]"] have "p = (s, ?v) \<or> p \<in> set sl"
      unfolding add_station_line_unfold by auto
    with v e show ?thesis by (elim disjE) (simp, blast)
  qed
  moreover have "distinct (map fst (add_station_line l s sl))"
    unfolding add_station_line_unfold by (rule store_distinct[OF d])
  ultimately show ?thesis by (simp add: index_ok_def list_all_iff)
qed

lemma index_ok_fold_stations: "index_ok sl \<Longrightarrow> index_ok (fold (add_station_line l) stations sl)"
  by (induction stations arbitrary: sl) (simp_all add: index_ok_add_station_line)

lemma built_ok_add_edge:
  assumes "built_ok g"
  shows "built_ok (add_edge l a b g)"
proof -
  from assms have d: "distinct (map fst g)"
    and e: "\<forall>p \<in> set g. distinct (map fst (snd p)) \<and>
              (\<forall>nb \<in> set (snd p). snd nb \<noteq> [] \<and> distinct (snd nb))"
    by (simp_all add: built_ok_def graph_ok_def labels_ok_def list_all_iff)
  let ?adj = "fst (dd_get [] g a)"
  let ?ls = "fst (dd_get [] ?adj b)"
  let ?v = "set_add l ?ls"
  let ?adj' = "AList.update b ?v (snd (dd_get [] ?adj b))"
  have adj: "distinct (map fst ?adj) \<and> (\<forall>nb \<in> set ?adj. snd nb \<noteq> [] \<and> distinct (snd nb))"
    using dd_get_value_cases[of "[]" g a] e by force
  then have "distinct ?ls" using dd_get_value_cases[of "[]" ?adj b] by force
  then have v: "?v \<noteq> [] \<and> distinct ?v" by (simp add: set_add_not_Nil distinct_set_add)
  have adj'd: "distinct (map fst ?adj')" using adj by (intro store_distinct) simp
  have adj'e: "snd nb \<noteq> [] \<and> distinct (snd nb)" if "nb \<in> set ?adj'" for nb
  proof -
    from adj have "distinct (map fst ?adj)" by simp
    from that store_entries[OF this, of b ?v "[]"] have "nb = (b, ?v) \<or> nb \<in> set ?adj" by auto
    with v adj show ?thesis by (elim disjE) (simp, blast)
  qed
  have g': "add_edge l a b g = AList.update a ?adj' (snd (dd_get [] g a))"
    by (rule add_edge_unfold)
  have "distinct (map fst (snd p)) \<and> (\<forall>nb \<in> set (snd p). snd nb \<noteq> [] \<and> distinct (snd nb))"
    if "p \<in> set (add_edge l a b g)" for p
  proof -
    from that store_entries[OF d, of a ?adj' "[]"] have "p = (a, ?adj') \<or> p \<in> set g"
      unfolding g' by auto
    then show ?thesis
    proof
      assume "p = (a, ?adj')"
      with adj'd adj'e show ?thesis by simp
    next
      assume "p \<in> set g"
      with e show ?thesis by blast
    qed
  qed
  moreover have "distinct (map fst (add_edge l a b g))"
    unfolding g' by (rule store_distinct[OF d])
  ultimately show ?thesis
    by (simp add: built_ok_def graph_ok_def labels_ok_def list_all_iff)
qed

lemma built_ok_add_line_edges: "built_ok g \<Longrightarrow> built_ok (add_line_edges l stations g)"
  by (induction l stations g rule: add_line_edges.induct) (simp_all add: built_ok_add_edge)

lemma built_ok_fold_lines:
  "built_ok (fst acc) \<Longrightarrow> index_ok (snd acc) \<Longrightarrow>
     built_ok (fst (fold add_line items acc)) \<and> index_ok (snd (fold add_line items acc))"
proof (induction items arbitrary: acc)
  case Nil
  then show ?case by simp
next
  case (Cons item items)
  obtain l stations where item: "item = (l, stations)" by (cases item)
  have "built_ok (fst (add_line item acc))"
    unfolding item fst_add_line by (rule built_ok_add_line_edges[OF Cons.prems(1)])
  moreover have "index_ok (snd (add_line item acc))"
    unfolding item snd_add_line by (rule index_ok_fold_stations[OF Cons.prems(2)])
  ultimately show ?case using Cons.IH by simp
qed

lemma built_graph_and_index_ok:
  "built_ok (fst (build_graph_and_station_lines line_items)) \<and>
   index_ok (snd (build_graph_and_station_lines line_items))"
  unfolding build_graph_and_station_lines_def
  by (rule built_ok_fold_lines) (simp_all add: built_ok_def index_ok_def graph_ok_def labels_ok_def)

lemma built_graph_ok: "graph_ok (fst (build_graph_and_station_lines line_items))"
  using built_graph_and_index_ok[of line_items] by (simp add: built_ok_def)

lemma built_labels_ok: "labels_ok (fst (build_graph_and_station_lines line_items))"
  using built_graph_and_index_ok[of line_items] by (simp add: built_ok_def)

lemma built_index_entry:
  assumes "map_of (snd (build_graph_and_station_lines line_items)) s = Some ls"
  shows "ls \<noteq> [] \<and> distinct ls"
proof -
  from assms have "(s, ls) \<in> set (snd (build_graph_and_station_lines line_items))"
    by (rule map_of_SomeD)
  with built_graph_and_index_ok[of line_items] show ?thesis
    by (auto simp: index_ok_def list_all_iff)
qed

section \<open>Properties of the builder\<close>

text \<open>
  C6. The built graph is symmetric: if \<open>b\<close> is a neighbour of \<open>a\<close> with label set
  \<open>ls\<close>, then \<open>a\<close> is a neighbour of \<open>b\<close> with the same label set.
\<close>

theorem built_graph_symmetric:
  "edge_lines (fst (build_graph_and_station_lines line_items)) a b = Some ls \<Longrightarrow>
   \<exists>ls'. edge_lines (fst (build_graph_and_station_lines line_items)) b a = Some ls' \<and> set ls' = set ls"
  using edge_lines_built_sym[of line_items a b] by simp

theorem built_graph_symmetric_witness:
  "edge_lines (fst (build_graph_and_station_lines lines3)) ''B'' ''C'' = Some [''L2'', ''L3''] \<and>
   (\<exists>ls'. edge_lines (fst (build_graph_and_station_lines lines3)) ''C'' ''B'' = Some ls' \<and>
      set ls' = set [''L2'', ''L3''])"
proof -
  have h: "edge_lines (fst (build_graph_and_station_lines lines3)) ''B'' ''C'' = Some [''L2'', ''L3'']"
    by code_simp
  from built_graph_symmetric[OF h] h show ?thesis by blast
qed

text \<open>
  C7. A station is a key of the built index exactly when it occurs in the sequence of
  some input line, and its entry is the union of the label sets of its edges together
  with the lines whose sequence holds it.
\<close>

theorem station_lines_index_of_built:
  "(s \<in> fst ` set (snd (build_graph_and_station_lines line_items))) =
     (s \<in> (\<Union>item \<in> set line_items. set (snd item))) \<and>
   index_set (snd (build_graph_and_station_lines line_items)) s =
     (\<Union>b. edge_set (fst (build_graph_and_station_lines line_items)) s b) \<union>
     lines_through line_items s"
proof
  show "(s \<in> fst ` set (snd (build_graph_and_station_lines line_items))) =
     (s \<in> (\<Union>item \<in> set line_items. set (snd item)))"
    unfolding dom_built[symmetric] dom_map_of_conv_image_fst ..
next
  have "(\<Union>b. edge_set (fst (build_graph_and_station_lines line_items)) s b) \<subseteq>
      lines_through line_items s"
    unfolding edge_set_built using lines_between_through by blast
  then show "index_set (snd (build_graph_and_station_lines line_items)) s =
     (\<Union>b. edge_set (fst (build_graph_and_station_lines line_items)) s b) \<union>
     lines_through line_items s"
    unfolding index_set_built by blast
qed

section \<open>Properties of the search\<close>

text \<open>
  C1. The returned path need not have the least number of switches: over an edge that
  does not carry the current line the search continues on the least line name only. In
  the network \<open>lines3\<close> the query from A to D returns 2 switches, while the walk
  A, B, C, D on the lines L1, L3, L3 is valid and has 1 switch.
\<close>

theorem greedy_line_choice_misses_fewer_switches:
  "find_min_switch_path (fst (build_graph_and_station_lines lines3))
     (snd (build_graph_and_station_lines lines3)) ''A'' ''D''
   = (Inr (Some ([''A'', ''B'', ''C'', ''D''], 2, 3, [''L1'', ''L2'', ''L3''])),
      fst (build_graph_and_station_lines lines3)) \<and>
   valid_walk (fst (build_graph_and_station_lines lines3))
     [''A'', ''B'', ''C'', ''D''] [''L1'', ''L3'', ''L3''] \<and>
   count_switches [''L1'', ''L3'', ''L3''] = 1"
  by code_simp

text \<open>
  C2. A query from a station of the index to itself returns the path of that single
  station with 0 switches; the station count it returns is 0, not 1.
\<close>

theorem reflexive_query_counts_zero_stations:
  assumes "map_of station_lines x = Some ls" and "ls \<noteq> []"
  shows "find_min_switch_path graph station_lines x x = (Inr (Some ([x], 0, 0, [])), graph)"
proof -
  obtain pq vis where sd: "seed x ls = (pq, vis)" by (cases "seed x ls")
  note sp = seed_props[OF sd]
  from sp(1) assms(2) have "set pq \<noteq> {}" by simp
  then obtain e rest where pq: "pq = e # rest" by (cases pq) auto
  then have "e \<in> set pq" by simp
  then have "e \<in> (\<lambda>l. Entry 0 0 x l None) ` set ls" unfolding sp(1) .
  then obtain l where l: "l \<in> set ls" and e: "e = Entry 0 0 x l None" by blast
  have v: "vis (x, l) = Some (0, 1)" using l by (subst sp(2)) simp
  have ns: "\<not> seen_below (vis (e_curr e, e_line e)) (e_switches e, e_stations e)"
    by (simp add: e v seen_below_def)
  have s: "search x pq vis graph = (Inr (Some e), graph)"
    unfolding pq using ns by (rule search_hit[where vis = vis and e = e]) (simp add: e)
  show ?thesis
    unfolding find_min_switch_path_def by (simp add: assms(1) sd s e reconstruct_root)
qed

theorem reflexive_query_witness:
  "find_min_switch_path [] [(''A'', [''L1''])] ''A'' ''A'' = (Inr (Some ([''A''], 0, 0, [])), [])"
proof -
  have "map_of [(''A'', [''L1''])] ''A'' = Some [''L1'']" by simp
  then show ?thesis by (rule reflexive_query_counts_zero_stations) simp
qed

text \<open>
  C3. When the source or the destination is not a key of the index, the function
  returns the tuple of \<open>None\<close>s and leaves the graph as it is. There is no separate
  error for an unknown station: the value is the one returned when no path exists.
\<close>

theorem unknown_station_returns_none:
  "map_of station_lines src = None \<or> map_of station_lines dest = None \<Longrightarrow>
     find_min_switch_path graph station_lines src dest = (Inr None, graph)"
  by (auto simp: find_min_switch_path_def split: option.splits)

theorem unknown_station_returns_none_witness:
  "find_min_switch_path (fst (build_graph_and_station_lines islands))
     (snd (build_graph_and_station_lines islands)) ''Z'' ''A''
   = (Inr None, fst (build_graph_and_station_lines islands))"
proof -
  have "map_of (snd (build_graph_and_station_lines islands)) ''Z'' = None" by code_simp
  then show ?thesis using unknown_station_returns_none by blast
qed

text \<open>
  In the two-island network the query from the unknown station Z and the query between
  the known, disconnected stations A and C return the same value.
\<close>

theorem unknown_station_same_as_no_path:
  "map_of (snd (build_graph_and_station_lines islands)) ''Z'' = None \<and>
   map_of (snd (build_graph_and_station_lines islands)) ''A'' \<noteq> None \<and>
   map_of (snd (build_graph_and_station_lines islands)) ''C'' \<noteq> None \<and>
   find_min_switch_path (fst (build_graph_and_station_lines islands))
     (snd (build_graph_and_station_lines islands)) ''Z'' ''A''
   = find_min_switch_path (fst (build_graph_and_station_lines islands))
     (snd (build_graph_and_station_lines islands)) ''A'' ''C''"
  by code_simp

text \<open>
  C8. The call can change the graph: reading \<open>graph[curr]\<close> for a popped station that
  is not a key of the graph stores an empty neighbour dict under it. In the network
  \<open>lonely\<close> station A sits alone on its line, so it is a key of the index and not of
  the graph; after the query from A to B it is a key of the graph.
\<close>

theorem query_adds_key_to_graph:
  "map_of (fst (build_graph_and_station_lines lonely)) ''A'' = None \<and>
   find_min_switch_path (fst (build_graph_and_station_lines lonely))
     (snd (build_graph_and_station_lines lonely)) ''A'' ''B''
   = (Inr None, fst (build_graph_and_station_lines lonely) @ [(''A'', [])])"
  by code_simp

text \<open>
  C10. A returned path is a walk of the graph from the source to the destination, with
  one line per edge, each a member of the label set of its edge.
\<close>

theorem returned_path_is_valid_walk:
  assumes "graph_ok graph"
    and "find_min_switch_path graph station_lines src dest = (Inr (Some (path, switches, stations, lines)), graph')"
  shows "path \<noteq> [] \<and> hd path = src \<and> last path = dest \<and> length lines + 1 = length path \<and>
         valid_walk graph path lines"
proof -
  from assms(2) obtain src_lines where sl: "map_of station_lines src = Some src_lines"
    unfolding find_min_switch_path_def by (auto split: option.splits)
  from assms(2) sl obtain dest_lines where dl: "map_of station_lines dest = Some dest_lines"
    unfolding find_min_switch_path_def by (auto split: option.splits)
  obtain pq vis where sd: "seed src src_lines = (pq, vis)" by (cases "seed src src_lines")
  from assms(2) obtain e where s: "search dest pq vis graph = (Inr (Some e), graph')"
    and r: "reconstruct e = (path, switches, stations, lines)"
    unfolding find_min_switch_path_def sl dl
    by (auto simp: sd split: prod.splits sum.splits option.splits)
  have inv: "entry_ok graph src x" if "x \<in> set pq" for x
    using that unfolding seed_props(1)[OF sd] by auto
  from search_sound[OF s assms(1) inv] have d: "e_curr e = dest" and ok: "entry_ok graph src e"
    by simp_all
  from r have p: "path = stations_of e" and l: "lines = tl (lines_of e)"
    unfolding reconstruct_chain by simp_all
  have "length (tl (lines_of e)) + 1 = length (stations_of e)"
    using lines_of_not_Nil[of e] by (simp add: length_lines_of[symmetric])
  then show ?thesis
    unfolding p l
    using stations_of_not_Nil[of e] hd_stations_of[OF ok] last_stations_of[of e] d valid_walk_entry[OF ok]
    by simp
qed

theorem returned_path_is_valid_walk_witness:
  "let g = fst (build_graph_and_station_lines lines3); sl = snd (build_graph_and_station_lines lines3);
       path = [''A'', ''B'', ''C'', ''D'']; lines = [''L1'', ''L2'', ''L3'']
   in graph_ok g \<and> find_min_switch_path g sl ''A'' ''D'' = (Inr (Some (path, 2, 3, lines)), g) \<and>
      path \<noteq> [] \<and> hd path = ''A'' \<and> last path = ''D'' \<and> length lines + 1 = length path \<and>
      valid_walk g path lines"
proof -
  have a: "graph_ok (fst (build_graph_and_station_lines lines3))" by code_simp
  have b: "find_min_switch_path (fst (build_graph_and_station_lines lines3))
      (snd (build_graph_and_station_lines lines3)) ''A'' ''D''
    = (Inr (Some ([''A'', ''B'', ''C'', ''D''], 2, 3, [''L1'', ''L2'', ''L3''])),
       fst (build_graph_and_station_lines lines3))" by code_simp
  from returned_path_is_valid_walk[OF a b] a b show ?thesis by (simp add: Let_def)
qed

text \<open>
  C4. With no empty label set in the graph and a non-empty index entry for the source,
  a query between two stations of the index returns a path exactly when the
  destination is reachable from the source in the graph, and the tuple of \<open>None\<close>s
  otherwise; it raises no exception.
\<close>

theorem not_found_iff_unreachable:
  assumes "labels_ok graph"
    and "map_of station_lines src = Some src_lines" and "src_lines \<noteq> []"
    and "map_of station_lines dest = Some dest_lines"
  shows "if reachable graph src dest
         then \<exists>r. fst (find_min_switch_path graph station_lines src dest) = Inr (Some r)
         else fst (find_min_switch_path graph station_lines src dest) = Inr None"
proof -
  obtain pq vis where sd: "seed src src_lines = (pq, vis)" by (cases "seed src src_lines")
  obtain out g' where s: "search dest pq vis graph = (out, g')" by (cases "search dest pq vis graph")
  have f: "fst (find_min_switch_path graph station_lines src dest) =
      (case out of Inl err \<Rightarrow> Inl err | Inr None \<Rightarrow> Inr None | Inr (Some e) \<Rightarrow> Inr (Some (reconstruct e)))"
    unfolding fst_find_min_switch_path assms(2,4) option.case sd by (simp add: s)
  have ne: "out \<noteq> Inl err" for err
    using search_no_error[OF assms(1), of dest pq vis err] s by simp
  have found: "reachable graph src dest" if "out = Inr (Some e)" for e
  proof (rule search_found_reachable[of dest pq vis graph e g'])
    show "search dest pq vis graph = (Inr (Some e), g')" using s that by simp
  next
    fix x assume "x \<in> set pq"
    then have "e_curr x = src" unfolding seed_props(1)[OF sd] by auto
    then show "reachable graph src (e_curr x)" by (simp add: reachable_def)
  qed
  have none: "\<not> reachable graph src dest" if "out = Inr None"
  proof (rule search_none_unreachable[of dest pq vis graph g'])
    show "search dest pq vis graph = (Inr None, g')" using s that by simp
    show "frontier_inv dest pq vis graph" by (rule seed_frontier_inv[OF sd])
    from assms(3) obtain l where "l \<in> set src_lines" by (cases src_lines) auto
    then have "(src, l) \<in> dom vis" unfolding seed_props(2)[OF sd] by (simp add: dom_def)
    then show "src \<in> fst ` dom vis" by force
  qed
  show ?thesis
  proof (cases out)
    case (Inl err)
    with ne[of err] show ?thesis by simp
  next
    case (Inr r)
    show ?thesis
    proof (cases r)
      case None
      with Inr none f show ?thesis by simp
    next
      case (Some e)
      with Inr found[of e] have "reachable graph src dest" by simp
      moreover from Some Inr f
      have "\<exists>r. fst (find_min_switch_path graph station_lines src dest) = Inr (Some r)"
        by (simp del: split_paired_Ex)
      ultimately show ?thesis by (simp del: split_paired_Ex)
    qed
  qed
qed

theorem not_found_iff_unreachable_witness:
  "labels_ok (fst (build_graph_and_station_lines lines3)) \<and>
   reachable (fst (build_graph_and_station_lines lines3)) ''A'' ''D'' \<and>
   fst (find_min_switch_path (fst (build_graph_and_station_lines lines3))
          (snd (build_graph_and_station_lines lines3)) ''A'' ''D'')
     = Inr (Some ([''A'', ''B'', ''C'', ''D''], 2, 3, [''L1'', ''L2'', ''L3''])) \<and>
   labels_ok (fst (build_graph_and_station_lines islands)) \<and>
   \<not> reachable (fst (build_graph_and_station_lines islands)) ''A'' ''C'' \<and>
   fst (find_min_switch_path (fst (build_graph_and_station_lines islands))
          (snd (build_graph_and_station_lines islands)) ''A'' ''C'') = Inr None"
proof -
  have a1: "labels_ok (fst (build_graph_and_station_lines lines3))" by code_simp
  have a2: "map_of (snd (build_graph_and_station_lines lines3)) ''A'' = Some [''L1'']" by code_simp
  have a3: "map_of (snd (build_graph_and_station_lines lines3)) ''D'' = Some [''L3'']" by code_simp
  have a4: "fst (find_min_switch_path (fst (build_graph_and_station_lines lines3))
          (snd (build_graph_and_station_lines lines3)) ''A'' ''D'')
     = Inr (Some ([''A'', ''B'', ''C'', ''D''], 2, 3, [''L1'', ''L2'', ''L3'']))" by code_simp
  have b1: "labels_ok (fst (build_graph_and_station_lines islands))" by code_simp
  have b2: "map_of (snd (build_graph_and_station_lines islands)) ''A'' = Some [''L1'']" by code_simp
  have b3: "map_of (snd (build_graph_and_station_lines islands)) ''C'' = Some [''L2'']" by code_simp
  have b4: "fst (find_min_switch_path (fst (build_graph_and_station_lines islands))
          (snd (build_graph_and_station_lines islands)) ''A'' ''C'') = Inr None" by code_simp
  have "reachable (fst (build_graph_and_station_lines lines3)) ''A'' ''D''"
    using not_found_iff_unreachable[OF a1 a2 _ a3] a4 by (simp split: if_splits)
  moreover have "\<not> reachable (fst (build_graph_and_station_lines islands)) ''A'' ''C''"
    using not_found_iff_unreachable[OF b1 b2 _ b3] b4 by (simp split: if_splits)
  ultimately show ?thesis using a1 a4 b1 b4 by blast
qed

text \<open>
  C9. The result does not depend on the order in which the sets of lines are iterated,
  and a second call on the graph left by the first returns the same result.
\<close>

theorem find_min_switch_path_deterministic:
  assumes "same_graph graph graph'" and "same_index station_lines station_lines'"
  shows "fst (find_min_switch_path graph station_lines src dest) =
           fst (find_min_switch_path graph' station_lines' src dest) \<and>
         fst (find_min_switch_path (snd (find_min_switch_path graph station_lines src dest))
                station_lines src dest) =
           fst (find_min_switch_path graph station_lines src dest)"
proof
  have "fst (find_min_switch_path graph station_lines src dest) =
        fst (find_min_switch_path graph' station_lines src dest)"
    by (rule find_same_nbrs[OF same_graph_nbrs[OF assms(1)]])
  also have "\<dots> = fst (find_min_switch_path graph' station_lines' src dest)"
    by (rule find_same_index[OF assms(2)])
  finally show "fst (find_min_switch_path graph station_lines src dest) =
           fst (find_min_switch_path graph' station_lines' src dest)" .
next
  have "same_nbrs (snd (find_min_switch_path graph station_lines src dest)) graph"
    unfolding snd_find_min_switch_path
    by (simp add: same_nbrs_refl search_graph_same_nbrs split: option.splits)
  then show "fst (find_min_switch_path (snd (find_min_switch_path graph station_lines src dest))
                station_lines src dest) =
           fst (find_min_switch_path graph station_lines src dest)"
    by (rule find_same_nbrs)
qed

theorem find_min_switch_path_deterministic_witness:
  "same_graph (fst (build_graph_and_station_lines lines3))
     (fst (build_graph_and_station_lines lines3_reordered)) \<and>
   same_index (snd (build_graph_and_station_lines lines3))
     (snd (build_graph_and_station_lines lines3_reordered)) \<and>
   snd (build_graph_and_station_lines lines3) \<noteq> snd (build_graph_and_station_lines lines3_reordered) \<and>
   fst (find_min_switch_path (fst (build_graph_and_station_lines lines3))
          (snd (build_graph_and_station_lines lines3)) ''A'' ''D'') =
   fst (find_min_switch_path (fst (build_graph_and_station_lines lines3_reordered))
          (snd (build_graph_and_station_lines lines3_reordered)) ''A'' ''D'') \<and>
   fst (find_min_switch_path
          (snd (find_min_switch_path (fst (build_graph_and_station_lines lines3))
                  (snd (build_graph_and_station_lines lines3)) ''A'' ''D''))
          (snd (build_graph_and_station_lines lines3)) ''A'' ''D'') =
   fst (find_min_switch_path (fst (build_graph_and_station_lines lines3))
          (snd (build_graph_and_station_lines lines3)) ''A'' ''D'')"
proof -
  have a: "same_graph (fst (build_graph_and_station_lines lines3))
     (fst (build_graph_and_station_lines lines3_reordered))"
    by code_simp
  have b: "same_index (snd (build_graph_and_station_lines lines3))
     (snd (build_graph_and_station_lines lines3_reordered))"
    by code_simp
  have c: "snd (build_graph_and_station_lines lines3) \<noteq> snd (build_graph_and_station_lines lines3_reordered)"
    by code_simp
  from find_min_switch_path_deterministic[OF a b, of "''A''" "''D''"] a b c show ?thesis
    by blast
qed

end
